theory Spec2Isabelle
  imports Main "HOL-Library.Word"
begin

section \<open>The Roomba Open Interface driver\<close>

text \<open>
  A shallow embedding of the driver: the constants of package \<open>constants\<close>, the value
  encoder \<open>Pack\<close> and the low-level \<open>Write\<close>/\<open>Read\<close> of \<open>serial.go\<close>, and the
  commands \<open>Drive\<close>, \<open>Sensors\<close>, \<open>QueryList\<close>, \<open>ReadStream\<close> and \<open>Stream\<close>.
  A Go \<open>byte\<close> is an \<open>8 word\<close>, an \<open>int16\<close> a \<open>16 word\<close> read with \<open>sint\<close>.
\<close>

subsection \<open>Package constants\<close>

type_synonym byte = "8 word"
type_synonym OpCode = "8 word"
type_synonym SensorCode = "8 word"

text \<open>The op codes count up from \<open>Start = 128\<close>; 133 and 146 are unused.\<close>

abbreviation (input) Drive_op :: OpCode where "Drive_op \<equiv> 137"
abbreviation (input) Sensors_op :: OpCode where "Sensors_op \<equiv> 142"
abbreviation (input) SensorStream_op :: OpCode where "SensorStream_op \<equiv> 148"
abbreviation (input) QueryList_op :: OpCode where "QueryList_op \<equiv> 149"
abbreviation (input) PauseResumeStream_op :: OpCode where "PauseResumeStream_op \<equiv> 150"

text \<open>The sensor codes count up from \<open>SENSOR_BUMP_WHEELS_DROPS = 7\<close>; 15 and 16 are blank.\<close>

abbreviation (input) SENSOR_BUMP_WHEELS_DROPS :: SensorCode where "SENSOR_BUMP_WHEELS_DROPS \<equiv> 7"
abbreviation (input) SENSOR_WALL :: SensorCode where "SENSOR_WALL \<equiv> 8"
abbreviation (input) SENSOR_CLIFF_LEFT :: SensorCode where "SENSOR_CLIFF_LEFT \<equiv> 9"
abbreviation (input) SENSOR_CLIFF_FRONT_LEFT :: SensorCode where "SENSOR_CLIFF_FRONT_LEFT \<equiv> 10"
abbreviation (input) SENSOR_CLIFF_FRONT_RIGHT :: SensorCode where "SENSOR_CLIFF_FRONT_RIGHT \<equiv> 11"
abbreviation (input) SENSOR_CLIFF_RIGHT :: SensorCode where "SENSOR_CLIFF_RIGHT \<equiv> 12"
abbreviation (input) SENSOR_VIRTUAL_WALL :: SensorCode where "SENSOR_VIRTUAL_WALL \<equiv> 13"
abbreviation (input) SENSOR_WHEEL_OVERCURRENT :: SensorCode where "SENSOR_WHEEL_OVERCURRENT \<equiv> 14"
abbreviation (input) SENSOR_IR_OMNI :: SensorCode where "SENSOR_IR_OMNI \<equiv> 17"
abbreviation (input) SENSOR_BUTTONS :: SensorCode where "SENSOR_BUTTONS \<equiv> 18"
abbreviation (input) SENSOR_DISTANCE :: SensorCode where "SENSOR_DISTANCE \<equiv> 19"
abbreviation (input) SENSOR_ANGLE :: SensorCode where "SENSOR_ANGLE \<equiv> 20"
abbreviation (input) SENSOR_CHARGING :: SensorCode where "SENSOR_CHARGING \<equiv> 21"
abbreviation (input) SENSOR_VOLTAGE :: SensorCode where "SENSOR_VOLTAGE \<equiv> 22"
abbreviation (input) SENSOR_CURRENT :: SensorCode where "SENSOR_CURRENT \<equiv> 23"
abbreviation (input) SENSOR_TEMPERATURE :: SensorCode where "SENSOR_TEMPERATURE \<equiv> 24"
abbreviation (input) SENSOR_BATTERY_CHARGE :: SensorCode where "SENSOR_BATTERY_CHARGE \<equiv> 25"
abbreviation (input) SENSOR_BATTERY_CAPACITY :: SensorCode where "SENSOR_BATTERY_CAPACITY \<equiv> 26"
abbreviation (input) SENSOR_WALL_SIGNAL :: SensorCode where "SENSOR_WALL_SIGNAL \<equiv> 27"
abbreviation (input) SENSOR_CLIFF_LEFT_SIGNAL :: SensorCode where "SENSOR_CLIFF_LEFT_SIGNAL \<equiv> 28"
abbreviation (input) SENSOR_CLIFF_FRONT_LEFT_SIGNAL :: SensorCode where
  "SENSOR_CLIFF_FRONT_LEFT_SIGNAL \<equiv> 29"
abbreviation (input) SENSOR_CLIFF_FRONT_RIGHT_SIGNAL :: SensorCode where
  "SENSOR_CLIFF_FRONT_RIGHT_SIGNAL \<equiv> 30"
abbreviation (input) SENSOR_CLIFF_RIGHT_SIGNAL :: SensorCode where "SENSOR_CLIFF_RIGHT_SIGNAL \<equiv> 31"
abbreviation (input) SENSOR_DIGITAL_INPUTS :: SensorCode where "SENSOR_DIGITAL_INPUTS \<equiv> 32"
abbreviation (input) SENSOR_ANALOG_INPUT :: SensorCode where "SENSOR_ANALOG_INPUT \<equiv> 33"
abbreviation (input) SENSOR_CHARGING_SOURCE :: SensorCode where "SENSOR_CHARGING_SOURCE \<equiv> 34"
abbreviation (input) SENSOR_OI_MODE :: SensorCode where "SENSOR_OI_MODE \<equiv> 35"
abbreviation (input) SENSOR_SONG_NUMBER :: SensorCode where "SENSOR_SONG_NUMBER \<equiv> 36"
abbreviation (input) SENSOR_SONG_PLAYING :: SensorCode where "SENSOR_SONG_PLAYING \<equiv> 37"
abbreviation (input) SENSOR_NUM_STREAM_PACKETS :: SensorCode where "SENSOR_NUM_STREAM_PACKETS \<equiv> 38"
abbreviation (input) SENSOR_REQUESTED_VELOCITY :: SensorCode where "SENSOR_REQUESTED_VELOCITY \<equiv> 39"
abbreviation (input) SENSOR_REQUESTED_RADIUS :: SensorCode where "SENSOR_REQUESTED_RADIUS \<equiv> 40"
abbreviation (input) SENSOR_RIGHT_VELOCITY :: SensorCode where "SENSOR_RIGHT_VELOCITY \<equiv> 41"
abbreviation (input) SENSOR_LEFT_VELOCITY :: SensorCode where "SENSOR_LEFT_VELOCITY \<equiv> 42"

text \<open>
  \<open>SENSOR_PACKET_LENGTH\<close>, a \<open>map[SensorCode]byte\<close>: the entries of the map literal,
  in the order of the source. A lookup of an absent key is \<open>None\<close> (Go's \<open>ok = false\<close>).
\<close>

definition SENSOR_PACKET_LENGTH_entries :: "(SensorCode \<times> byte) list" where
  "SENSOR_PACKET_LENGTH_entries =
    [(SENSOR_BUMP_WHEELS_DROPS, 1), (SENSOR_WALL, 1), (SENSOR_CLIFF_LEFT, 1),
     (SENSOR_CLIFF_FRONT_LEFT, 1), (SENSOR_CLIFF_FRONT_RIGHT, 1), (SENSOR_CLIFF_RIGHT, 1),
     (SENSOR_VIRTUAL_WALL, 1), (SENSOR_WHEEL_OVERCURRENT, 1), (15, 1), (16, 1),
     (SENSOR_IR_OMNI, 1), (SENSOR_BUTTONS, 1), (SENSOR_DISTANCE, 2), (SENSOR_ANGLE, 2),
     (SENSOR_CHARGING, 1), (SENSOR_VOLTAGE, 2), (SENSOR_CURRENT, 2), (SENSOR_TEMPERATURE, 1),
     (SENSOR_BATTERY_CHARGE, 2), (SENSOR_BATTERY_CAPACITY, 2), (SENSOR_WALL_SIGNAL, 2),
     (SENSOR_CLIFF_LEFT_SIGNAL, 2), (SENSOR_CLIFF_FRONT_LEFT_SIGNAL, 2),
     (SENSOR_CLIFF_FRONT_RIGHT_SIGNAL, 2), (SENSOR_CLIFF_RIGHT_SIGNAL, 2),
     (SENSOR_DIGITAL_INPUTS, 1), (SENSOR_ANALOG_INPUT, 2), (SENSOR_CHARGING_SOURCE, 1),
     (SENSOR_OI_MODE, 1), (SENSOR_SONG_NUMBER, 1), (SENSOR_SONG_PLAYING, 1),
     (SENSOR_NUM_STREAM_PACKETS, 1), (SENSOR_REQUESTED_VELOCITY, 2),
     (SENSOR_REQUESTED_RADIUS, 2), (SENSOR_RIGHT_VELOCITY, 2), (SENSOR_LEFT_VELOCITY, 2),
     (0, 26), (1, 10), (2, 6), (3, 10), (4, 14), (5, 12), (6, 52)]"

definition SENSOR_PACKET_LENGTH :: "SensorCode \<rightharpoonup> byte" where
  "SENSOR_PACKET_LENGTH = map_of SENSOR_PACKET_LENGTH_entries"

subsection \<open>Errors and process exits\<close>

text \<open>\<open>io.EOF\<close> and every other error a transport call can return.\<close>

datatype io_error = EOF | ErrOther

text \<open>
  The \<open>error\<close> values the commands return (each a \<open>fmt.Errorf\<close> of the source), and
  the run-time panic of a slice expression out of range.
\<close>

datatype error =
    InvalidVelocity "16 word"
  | InvalidRadius "16 word"
  | UnknownPacketId SensorCode
  | FailedWritingOpcode OpCode
  | FailedWritingCommand "byte list"
  | FailedReading SensorCode io_error
  | SliceBoundsOutOfRange

text \<open>
  \<open>log.Fatal\<close> and \<open>log.Fatalf\<close> print the message and end the process with
  \<open>os.Exit(1)\<close>; an index out of range panics, which ends the process as well.
\<close>

datatype fatal =
    FailedPackingBytes
  | HeaderNot19
  | InvalidNBytes
  | ErrorReadingPacketData
  | MissingChecksum
  | ChecksumDidNotMatch byte
  | IndexOutOfRange

subsection \<open>Pack (serial.go)\<close>

text \<open>
  The elements of the \<open>[]interface{}\<close> handed to \<open>Pack\<close>: the fixed-width integers, and
  \<open>NotFixedSize\<close> for a value \<open>binary.Write\<close> rejects (an \<open>int\<close>, a string).
  \<open>binary.Write\<close> with \<open>binary.BigEndian\<close> belongs to Go's library; it appends
  \<open>byte(v >> 8 * (w - 1))\<close>, ..., \<open>byte(v >> 8)\<close>, \<open>byte(v)\<close> for a value of \<open>w\<close> bytes.
\<close>

datatype gvalue =
    Int8 "8 word" | Uint8 "8 word"
  | Int16 "16 word" | Uint16 "16 word"
  | Int32 "32 word" | Uint32 "32 word"
  | Int64 "64 word" | Uint64 "64 word"
  | NotFixedSize

definition PutUint16 :: "16 word \<Rightarrow> byte list" where
  "PutUint16 v = [ucast (drop_bit 8 v), ucast v]"

definition PutUint32 :: "32 word \<Rightarrow> byte list" where
  "PutUint32 v = [ucast (drop_bit 24 v), ucast (drop_bit 16 v), ucast (drop_bit 8 v), ucast v]"

definition PutUint64 :: "64 word \<Rightarrow> byte list" where
  "PutUint64 v =
     [ucast (drop_bit 56 v), ucast (drop_bit 48 v), ucast (drop_bit 40 v), ucast (drop_bit 32 v),
      ucast (drop_bit 24 v), ucast (drop_bit 16 v), ucast (drop_bit 8 v), ucast v]"

fun binary_Write :: "byte list \<Rightarrow> gvalue \<Rightarrow> byte list option" where
  "binary_Write buf (Int8 v) = Some (buf @ [v])"
| "binary_Write buf (Uint8 v) = Some (buf @ [v])"
| "binary_Write buf (Int16 v) = Some (buf @ PutUint16 v)"
| "binary_Write buf (Uint16 v) = Some (buf @ PutUint16 v)"
| "binary_Write buf (Int32 v) = Some (buf @ PutUint32 v)"
| "binary_Write buf (Uint32 v) = Some (buf @ PutUint32 v)"
| "binary_Write buf (Int64 v) = Some (buf @ PutUint64 v)"
| "binary_Write buf (Uint64 v) = Some (buf @ PutUint64 v)"
| "binary_Write buf NotFixedSize = None"

text \<open>The loop of \<open>Pack\<close> over \<open>data\<close>, with the buffer as accumulator.\<close>

fun Pack_loop :: "byte list \<Rightarrow> gvalue list \<Rightarrow> fatal + byte list" where
  "Pack_loop buf [] = Inr buf"
| "Pack_loop buf (v # data) =
     (case binary_Write buf v of
        None \<Rightarrow> Inl FailedPackingBytes
      | Some buf' \<Rightarrow> Pack_loop buf' data)"

definition Pack :: "gvalue list \<Rightarrow> fatal + byte list" where
  "Pack data = Pack_loop [] data"

text \<open>
  The encoding as the specification words it: the big-endian representation of a value
  of \<open>w\<close> bytes is its \<open>w\<close> base-256 digits, most significant first, of the value
  read as an unsigned number (two's complement for a negative one).
\<close>

definition big_endian :: "nat \<Rightarrow> nat \<Rightarrow> byte list" where
  "big_endian w u = map (\<lambda>i. of_nat (u div 256 ^ (w - 1 - i) mod 256)) [0..<w]"

fun width :: "gvalue \<Rightarrow> nat" where
  "width (Int8 v) = 1" | "width (Uint8 v) = 1"
| "width (Int16 v) = 2" | "width (Uint16 v) = 2"
| "width (Int32 v) = 4" | "width (Uint32 v) = 4"
| "width (Int64 v) = 8" | "width (Uint64 v) = 8"
| "width NotFixedSize = 0"

fun unsigned_value :: "gvalue \<Rightarrow> nat" where
  "unsigned_value (Int8 v) = nat (sint v mod 2 ^ 8)"
| "unsigned_value (Uint8 v) = unat v"
| "unsigned_value (Int16 v) = nat (sint v mod 2 ^ 16)"
| "unsigned_value (Uint16 v) = unat v"
| "unsigned_value (Int32 v) = nat (sint v mod 2 ^ 32)"
| "unsigned_value (Uint32 v) = unat v"
| "unsigned_value (Int64 v) = nat (sint v mod 2 ^ 64)"
| "unsigned_value (Uint64 v) = unat v"
| "unsigned_value NotFixedSize = 0"

definition big_endian_representation :: "gvalue \<Rightarrow> byte list" where
  "big_endian_representation v = big_endian (width v) (unsigned_value v)"

subsection \<open>The transport and the Roomba value\<close>

text \<open>
  \<open>Roomba.S\<close> is an \<open>io.ReadWriter\<close> opened outside this code. It is modelled by
  what it will do: \<open>incoming\<close> holds the bytes the robot sends, in order, and each
  \<open>Rd m e p\<close> of \<open>reads\<close> scripts one call of \<open>Read\<close>, which hands over at most
  \<open>m\<close> of them (never more than the caller's slice holds) and returns the error \<open>e\<close>;
  \<open>p\<close> says that another goroutine calls \<open>PauseStream\<close> before that call returns.
  An exhausted script is the closed transport: \<open>Read\<close> returns \<open>(0, io.EOF)\<close>.
  Each \<open>Wr m e\<close> of \<open>writes\<close> scripts one call of \<open>Write\<close>, which accepts at most
  \<open>m\<close> bytes and returns \<open>e\<close>; with no script left a write is complete.
  \<open>outgoing\<close> logs the bytes the transport accepted. \<open>StreamPaused\<close> is the channel
  of capacity one of the same name: \<open>True\<close> when it holds a value.
\<close>

datatype rd = Rd nat "io_error option" bool
datatype wr = Wr nat "io_error option"

record Roomba =
  incoming :: "byte list"
  reads :: "rd list"
  writes :: "wr list"
  outgoing :: "byte list"
  StreamPaused :: bool

definition S_Read :: "nat \<Rightarrow> Roomba \<Rightarrow> byte list \<times> io_error option \<times> Roomba" where
  "S_Read k r =
     (case reads r of
        [] \<Rightarrow> ([], Some EOF, r)
      | Rd m e p # rest \<Rightarrow>
          (let d = take (min m k) (incoming r)
           in (d, e, r\<lparr>incoming := drop (length d) (incoming r), reads := rest,
                       StreamPaused := (StreamPaused r \<or> p)\<rparr>)))"

definition S_Write :: "byte list \<Rightarrow> Roomba \<Rightarrow> nat \<times> io_error option \<times> Roomba" where
  "S_Write p r =
     (case writes r of
        [] \<Rightarrow> (length p, None, r\<lparr>outgoing := outgoing r @ p\<rparr>)
      | Wr m e # rest \<Rightarrow>
          (let n = min m (length p)
           in (n, e, r\<lparr>outgoing := outgoing r @ take n p, writes := rest\<rparr>)))"

text \<open>\<open>Write\<close> of serial.go: the op code byte, then the data bytes.\<close>

definition Write :: "OpCode \<Rightarrow> byte list \<Rightarrow> Roomba \<Rightarrow> error option \<times> Roomba" where
  "Write opcode p r =
     (case S_Write [opcode] r of (n, err, r1) \<Rightarrow>
        if n \<noteq> 1 \<or> err \<noteq> None then (Some (FailedWritingOpcode opcode), r1)
        else (case S_Write p r1 of (n', err', r2) \<Rightarrow>
                if n' \<noteq> length p \<or> err' \<noteq> None then (Some (FailedWritingCommand p), r2)
                else (None, r2)))"

text \<open>\<open>Read\<close> of serial.go hands the slice to the transport.\<close>

definition Read :: "nat \<Rightarrow> Roomba \<Rightarrow> byte list \<times> io_error option \<times> Roomba" where
  "Read k r = S_Read k r"

subsection \<open>Drive\<close>

text \<open>
  The result is \<open>Inl\<close> when the process ends in \<open>Pack\<close>, else \<open>Inr\<close> of the returned
  \<open>error\<close> (\<open>None\<close> for \<open>nil\<close>). The comparisons are those of \<open>int16\<close>.
\<close>

definition Drive :: "16 word \<Rightarrow> 16 word \<Rightarrow> Roomba \<Rightarrow> (fatal + error option) \<times> Roomba" where
  "Drive velocity radius r =
     (if \<not> (- 500 \<le> sint velocity \<and> sint velocity \<le> 500) then
        (Inr (Some (InvalidVelocity velocity)), r)
      else if \<not> (- 2000 \<le> sint radius \<and> sint radius \<le> 2000) then
        (Inr (Some (InvalidRadius radius)), r)
      else (case Pack [Int16 velocity, Int16 radius] of
              Inl f \<Rightarrow> (Inl f, r)
            | Inr p \<Rightarrow> (case Write Drive_op p r of (err, r') \<Rightarrow> (Inr err, r'))))"

subsection \<open>Sensors and QueryList\<close>

text \<open>
  The read loop of \<open>Sensors\<close> (and, word for word, of \<open>QueryList\<close> for one entry):
  \<open>n\<close> is the count the last \<open>Read\<close> returned, \<open>result[n:]\<close> the slice handed to the
  next \<open>Read\<close>, and \<open>bytesToRead\<close> is lowered by \<open>byte(n)\<close> before it.
\<close>

function read_packet ::
  "SensorCode \<Rightarrow> byte list \<Rightarrow> nat \<Rightarrow> byte \<Rightarrow> Roomba \<Rightarrow> (byte list \<times> error option) \<times> Roomba"
where
  "read_packet packetId result n bytesToRead r =
     (if (of_nat n :: byte) < bytesToRead then
        if length result < n then ((result, Some SliceBoundsOutOfRange), r)
        else
          (case Read (length result - n) r of (d, err, r') \<Rightarrow>
             (case err of
                Some e \<Rightarrow>
                  ((take n result @ d @ drop (n + length d) result,
                    Some (FailedReading packetId e)), r')
              | None \<Rightarrow>
                  read_packet packetId (take n result @ d @ drop (n + length d) result)
                    (length d) (bytesToRead - of_nat n) r'))
      else ((result, None), r))"
  by pat_completeness auto

lemma S_Read_no_error_shrinks:
  "S_Read k r = (d, None, r') \<Longrightarrow> length (reads r') < length (reads r)"
  by (auto simp: S_Read_def Let_def split: list.splits rd.splits)

termination read_packet
  by (relation "measure (\<lambda>(packetId, result, n, bytesToRead, r). length (reads r))")
     (auto simp: Read_def dest: S_Read_no_error_shrinks [OF sym])

declare read_packet.simps [simp del]

definition Sensors :: "SensorCode \<Rightarrow> Roomba \<Rightarrow> (byte list \<times> error option) \<times> Roomba" where
  "Sensors packetId r =
     (case SENSOR_PACKET_LENGTH packetId of
        None \<Rightarrow> (([], Some (UnknownPacketId packetId)), r)
      | Some bytesToRead \<Rightarrow>
          (case Write Sensors_op [packetId] r of (_, r1) \<Rightarrow>
             read_packet packetId (replicate (unat bytesToRead) 0) 0 bytesToRead r1))"

text \<open>
  \<open>QueryList\<close>: every id is looked up before anything is written; the entries are
  then read in the order of \<open>packetIds\<close>. A lookup of an absent key in the second loop
  would give the zero value.
\<close>

fun QueryList_loop ::
  "SensorCode list \<Rightarrow> byte list list \<Rightarrow> nat \<Rightarrow> Roomba
    \<Rightarrow> (byte list list \<times> error option) \<times> Roomba"
where
  "QueryList_loop [] result i r = ((result, None), r)"
| "QueryList_loop (packetId # packetIds) result i r =
     (let bytesToRead = (case SENSOR_PACKET_LENGTH packetId of Some l \<Rightarrow> l | None \<Rightarrow> 0)
      in case read_packet packetId (replicate (unat bytesToRead) 0) 0 bytesToRead r of
           ((entry, Some e), r') \<Rightarrow> ((result[i := entry], Some e), r')
         | ((entry, None), r') \<Rightarrow> QueryList_loop packetIds (result[i := entry]) (Suc i) r')"

definition QueryList ::
  "SensorCode list \<Rightarrow> Roomba \<Rightarrow> (byte list list \<times> error option) \<times> Roomba"
where
  "QueryList packetIds r =
     (case find (\<lambda>packetId. SENSOR_PACKET_LENGTH packetId = None) packetIds of
        Some packetId \<Rightarrow> (([], Some (UnknownPacketId packetId)), r)
      | None \<Rightarrow>
          (case Write QueryList_op (of_nat (length packetIds) # packetIds) r of (_, r1) \<Rightarrow>
             QueryList_loop packetIds (replicate (length packetIds) []) 0 r1))"

subsection \<open>PauseStream, ReadStream and Stream\<close>


text \<open>The first loop of \<open>ReadStream\<close>: \<open>dataLength\<close> is a \<open>byte\<close> and wraps.\<close>

fun dataLength_loop :: "byte \<Rightarrow> SensorCode list \<Rightarrow> SensorCode + byte" where
  "dataLength_loop dataLength [] = Inr dataLength"
| "dataLength_loop dataLength (packetId # packetIds) =
     (case SENSOR_PACKET_LENGTH packetId of
        None \<Rightarrow> Inl packetId
      | Some packetLength \<Rightarrow> dataLength_loop (dataLength + packetLength) packetIds)"

text \<open>
  Reading one frame into \<open>buf\<close> (the loop \<open>for bytesRead < len(buf)\<close>): it ends with
  the buffer full, with a return on \<open>io.EOF\<close>, or with \<open>goto Loop\<close> on another error.
\<close>

datatype frame_read = FrameFull | FrameEOF | FrameGotoLoop

function read_frame :: "byte list \<Rightarrow> nat \<Rightarrow> Roomba \<Rightarrow> frame_read \<times> byte list \<times> Roomba" where
  "read_frame buf bytesRead r =
     (if bytesRead < length buf then
        (case S_Read (length buf - bytesRead) r of (d, err, r') \<Rightarrow>
           (case err of
              Some EOF \<Rightarrow>
                (FrameEOF, take bytesRead buf @ d @ drop (bytesRead + length d) buf, r')
            | Some ErrOther \<Rightarrow>
                (FrameGotoLoop, take bytesRead buf @ d @ drop (bytesRead + length d) buf, r')
            | None \<Rightarrow>
                read_frame (take bytesRead buf @ d @ drop (bytesRead + length d) buf)
                  (bytesRead + length d) r'))
      else (FrameFull, buf, r))"
  by pat_completeness auto

termination read_frame
  by (relation "measure (\<lambda>(buf, bytesRead, r). length (reads r))")
     (auto dest: S_Read_no_error_shrinks [OF sym])

declare read_frame.simps [simp del]

text \<open>
  Processing the frame in \<open>buf\<close>. \<open>bufR\<close> is the list of bytes not yet read. The loop
  over the entries takes each packet id from the frame itself, looks its length up
  (zero for an absent key), reads the payload (a short read ends in \<open>log.Fatalf\<close>), adds
  id and payload to \<open>sum\<close> (here \<open>chk\<close>), and stops when one byte is left or none.
  When \<open>buf\<close> holds a single byte, the second \<open>ReadByte\<close> fails and the arguments of
  the log call index \<open>buf[1]\<close>, which panics.
\<close>

function entries_loop ::
  "byte list list \<Rightarrow> nat \<Rightarrow> byte \<Rightarrow> byte list \<Rightarrow> fatal + (byte list list \<times> byte \<times> byte list)"
where
  "entries_loop result i chk [] = Inr (result, chk, [])"
| "entries_loop result i chk (packetId # bufR) =
     (let bytesToRead =
            unat (case SENSOR_PACKET_LENGTH packetId of Some l \<Rightarrow> l | None \<Rightarrow> 0)
      in if length result \<le> i then Inl IndexOutOfRange
         else if length bufR < bytesToRead then Inl ErrorReadingPacketData
         else if length (drop bytesToRead bufR) = 1 then
           Inr (result[i := take bytesToRead bufR],
                foldl (+) (chk + packetId) (take bytesToRead bufR), drop bytesToRead bufR)
         else
           entries_loop (result[i := take bytesToRead bufR]) (Suc i)
             (foldl (+) (chk + packetId) (take bytesToRead bufR)) (drop bytesToRead bufR))"
  by pat_completeness auto

termination entries_loop
  by (relation "measure (\<lambda>(result, i, chk, bufR). length bufR)") auto

datatype frame_outcome = Exit fatal | Deliver "byte list list"

definition process_frame :: "SensorCode list \<Rightarrow> byte list \<Rightarrow> frame_outcome" where
  "process_frame packetIds buf =
     (case buf of
        [] \<Rightarrow> Exit HeaderNot19
      | b # bufR \<Rightarrow>
          if b \<noteq> 19 then Exit HeaderNot19
          else (case bufR of
                  [] \<Rightarrow> Exit IndexOutOfRange
                | b' # bufR' \<Rightarrow>
                    if b' \<noteq> of_int (int (length buf) - 3) then Exit InvalidNBytes
                    else (case entries_loop (replicate (length packetIds) []) 0
                                 (of_int (int (length buf) - 3)) bufR' of
                            Inl f \<Rightarrow> Exit f
                          | Inr (result, chk, rest) \<Rightarrow>
                              (case rest of
                                 [] \<Rightarrow> Exit MissingChecksum
                               | expectedChecksum # _ \<Rightarrow>
                                   if chk + expectedChecksum \<noteq> 0
                                   then Exit (ChecksumDidNotMatch (chk + expectedChecksum))
                                   else Deliver result))))"

text \<open>
  How the reader goroutine ends, and what its consumer has seen by then: the values
  received from \<open>out\<close> and whether \<open>out\<close> was closed. \<open>out\<close> is unbuffered, so
  a send \<open>out <- result\<close> completes only when the consumer receives; the consumer is
  given by \<open>receives\<close>, the number of values it will still receive. At a send with
  no receive left the goroutine blocks for ever: \<open>BlockedOnSend\<close>.
\<close>

datatype reader_exit =
    Paused
  | ReturnedOnEOF
  | ReturnedOnUnknownId SensorCode
  | ProcessExit fatal
  | BlockedOnSend

record stream_end =
  final :: Roomba
  out_frames :: "byte list list list"
  out_closed :: bool
  exit :: reader_exit


lemma S_Read_facts:
  "S_Read k r = (d, err, r') \<Longrightarrow>
     length d \<le> k \<and> length (reads r') \<le> length (reads r) \<and>
     (err \<noteq> Some EOF \<longrightarrow> length (reads r') < length (reads r))"
  by (auto simp: S_Read_def Let_def split: list.splits rd.splits)

lemma length_splice:
  "length d \<le> length xs - n \<Longrightarrow> n \<le> length xs \<Longrightarrow>
   length (take n xs @ d @ drop (n + length d) xs) = length xs"
  by auto

lemma read_frame_facts:
  "read_frame buf k r = (t, buf', r') \<Longrightarrow>
     length buf' = length buf \<and> length (reads r') \<le> length (reads r) \<and>
     (k < length buf \<and> t \<noteq> FrameEOF \<longrightarrow> length (reads r') < length (reads r))"
proof (induction buf k r arbitrary: t buf' r' rule: read_frame.induct)
  case (1 buf bytesRead r)
  show ?case
  proof (cases "bytesRead < length buf")
    case False
    with "1.prems" show ?thesis by (subst (asm) read_frame.simps) simp
  next
    case True
    obtain d err r1 where rd: "S_Read (length buf - bytesRead) r = (d, err, r1)"
      by (cases "S_Read (length buf - bytesRead) r") auto
    note f = S_Read_facts [OF rd]
    show ?thesis
    proof (cases err)
      case None
      let ?b = "take bytesRead buf @ d @ drop (bytesRead + length d) buf"
      from "1.prems" True rd None
      have rec: "read_frame ?b (bytesRead + length d) r1 = (t, buf', r')"
        by (subst (asm) read_frame.simps) simp
      from "1.IH" [OF True rd [symmetric] refl None rec]
      have "length buf' = length ?b" and "length (reads r') \<le> length (reads r1)"
        by simp_all
      moreover have "length ?b = length buf" using f True by (intro length_splice) auto
      ultimately show ?thesis using f None by simp
    next
      case (Some e)
      from "1.prems" True rd Some
      have "buf' = take bytesRead buf @ d @ drop (bytesRead + length d) buf" and "r' = r1"
        and "e = EOF \<longleftrightarrow> t = FrameEOF"
        by (subst (asm) read_frame.simps, cases e; simp)+
      moreover have "length (take bytesRead buf @ d @ drop (bytesRead + length d) buf) = length buf"
        using f True by (intro length_splice) auto
      ultimately show ?thesis using f Some by auto
    qed
  qed
qed


lemma process_frame_Nil: "process_frame packetIds [] = Exit HeaderNot19"
  by (simp add: process_frame_def)

text \<open>
  The loop of \<open>ReadStream\<close>: the \<open>select\<close> at the label \<open>Loop\<close> first; in its default
  branch \<open>bytesRead\<close> starts at zero.
\<close>

function ReadStream_loop ::
  "SensorCode list \<Rightarrow> byte list \<Rightarrow> byte list list list \<Rightarrow> nat \<Rightarrow> Roomba \<Rightarrow> stream_end"
where
  "ReadStream_loop packetIds buf out receives r =
     (if StreamPaused r then
        (case Write PauseResumeStream_op [0] (r\<lparr>StreamPaused := False\<rparr>) of (_, r') \<Rightarrow>
           \<lparr>final = r', out_frames = out, out_closed = True, exit = Paused\<rparr>)
      else
        (case read_frame buf 0 r of (t, buf', r') \<Rightarrow>
           (case t of
              FrameEOF \<Rightarrow>
                \<lparr>final = r', out_frames = out, out_closed = False, exit = ReturnedOnEOF\<rparr>
            | FrameGotoLoop \<Rightarrow> ReadStream_loop packetIds buf' out receives r'
            | FrameFull \<Rightarrow>
                (case process_frame packetIds buf' of
                   Exit f \<Rightarrow>
                     \<lparr>final = r', out_frames = out, out_closed = False, exit = ProcessExit f\<rparr>
                 | Deliver result \<Rightarrow>
                     (case receives of
                        0 \<Rightarrow>
                          \<lparr>final = r', out_frames = out, out_closed = False,
                           exit = BlockedOnSend\<rparr>
                      | Suc receives' \<Rightarrow>
                          ReadStream_loop packetIds buf' (out @ [result]) receives' r')))))"
  by pat_completeness auto

lemma read_frame_goto_shrinks:
  "read_frame buf 0 r = (FrameGotoLoop, buf', r') \<Longrightarrow> length (reads r') < length (reads r)"
proof -
  assume rf: "read_frame buf 0 r = (FrameGotoLoop, buf', r')"
  have "0 < length buf"
  proof (rule ccontr)
    assume "\<not> 0 < length buf"
    then have "read_frame buf 0 r = (FrameFull, buf, r)" by (subst read_frame.simps) simp
    with rf show False by simp
  qed
  with read_frame_facts [OF rf] show ?thesis by simp
qed

lemma read_frame_deliver_shrinks:
  "read_frame buf 0 r = (FrameFull, buf', r') \<Longrightarrow> process_frame packetIds buf' = Deliver result
    \<Longrightarrow> length (reads r') < length (reads r)"
proof -
  assume rf: "read_frame buf 0 r = (FrameFull, buf', r')"
    and pf: "process_frame packetIds buf' = Deliver result"
  have "0 < length buf"
  proof (rule ccontr)
    assume "\<not> 0 < length buf"
    with read_frame_facts [OF rf] have "buf' = []" by simp
    with pf show False by (simp add: process_frame_Nil)
  qed
  with read_frame_facts [OF rf] show ?thesis by simp
qed

termination ReadStream_loop
  by (relation "measure (\<lambda>(packetIds, buf, out, receives, r). length (reads r))")
     (auto dest: read_frame_goto_shrinks [OF sym] read_frame_deliver_shrinks [OF sym])


declare ReadStream_loop.simps [simp del]

definition ReadStream :: "SensorCode list \<Rightarrow> nat \<Rightarrow> Roomba \<Rightarrow> stream_end" where
  "ReadStream packetIds receives r =
     (case dataLength_loop 0 packetIds of
        Inl packetId \<Rightarrow>
          \<lparr>final = r, out_frames = [], out_closed = False,
           exit = ReturnedOnUnknownId packetId\<rparr>
      | Inr dataLength \<Rightarrow>
          ReadStream_loop packetIds
            (replicate (unat (dataLength + of_nat (length packetIds) + 3)) 0) [] receives r)"

text \<open>
  \<open>Stream\<close> writes the request, makes the channel and starts the reader; the model
  returns the write error, or how the reader's run ends for a caller that receives
  \<open>receives\<close> values from the channel.
\<close>

definition Stream ::
  "SensorCode list \<Rightarrow> nat \<Rightarrow> Roomba \<Rightarrow> (error \<times> Roomba) + stream_end"
where
  "Stream packetIds receives r =
     (case Write SensorStream_op (of_nat (length packetIds) # packetIds) r of
        (Some err, r1) \<Rightarrow> Inl (err, r1)
      | (None, r1) \<Rightarrow> Inr (ReadStream packetIds receives r1))"

subsection \<open>Notions used in the statements\<close>

text \<open>The errors that \<open>Write\<close> of serial.go returns.\<close>

fun write_failure :: "error \<Rightarrow> bool" where
  "write_failure (FailedWritingOpcode opcode) = True"
| "write_failure (FailedWritingCommand p) = True"
| "write_failure e = False"

text \<open>Two states that agree on everything a \<open>Read\<close> depends on.\<close>

definition same_input :: "Roomba \<Rightarrow> Roomba \<Rightarrow> bool" where
  "same_input r1 r2 \<longleftrightarrow>
     incoming r1 = incoming r2 \<and> reads r1 = reads r2 \<and> StreamPaused r1 = StreamPaused r2"

text \<open>
  Example states. In \<open>r_fragments\<close> the robot's six bytes arrive in reads of one, one
  and four bytes; in \<open>r_write_fails\<close> the first write to the transport fails.
\<close>

definition r_fragments :: Roomba where
  "r_fragments =
     \<lparr>incoming = [1, 2, 3, 4, 5, 6],
      reads = [Rd 1 None False, Rd 1 None False, Rd 4 None False],
      writes = [], outgoing = [], StreamPaused = False\<rparr>"

definition r_write_fails :: Roomba where
  "r_write_fails =
     \<lparr>incoming = [10, 20, 30], reads = [Rd 3 None False, Rd 3 None False],
      writes = [Wr 0 (Some ErrOther)], outgoing = [], StreamPaused = False\<rparr>"

text \<open>
  The wire format of a stream frame: the header 19, the length byte, the entries (packet
  id, then payload) and the checksum byte. \<open>registered_entry\<close> says that the packet
  id is registered and the payload has its length. \<open>frame_sum\<close> is the sum, in a
  \<open>byte\<close> (so modulo 256), of every byte from the length byte to the checksum byte.
\<close>

definition frame_entries :: "(SensorCode \<times> byte list) list \<Rightarrow> byte list" where
  "frame_entries entries = concat (map (\<lambda>(packetId, payload). packetId # payload) entries)"

definition wire_frame :: "(SensorCode \<times> byte list) list \<Rightarrow> byte \<Rightarrow> byte list" where
  "wire_frame entries checksum =
     19 # of_nat (length (frame_entries entries)) # frame_entries entries @ [checksum]"

definition registered_entry :: "SensorCode \<times> byte list \<Rightarrow> bool" where
  "registered_entry e =
     (case SENSOR_PACKET_LENGTH (fst e) of
        None \<Rightarrow> False
      | Some l \<Rightarrow> length (snd e) = unat l)"

definition frame_sum :: "(SensorCode \<times> byte list) list \<Rightarrow> byte \<Rightarrow> byte" where
  "frame_sum entries checksum = sum_list (tl (wire_frame entries checksum))"

text \<open>
  The first two checks of a frame, as conditions on the buffer: the first byte is absent
  or not 19; the second byte is there and differs from \<open>byte(len(buf) - 3)\<close>.
\<close>

definition header_violation :: "byte list \<Rightarrow> bool" where
  "header_violation buf = (case buf of [] \<Rightarrow> True | b # _ \<Rightarrow> b \<noteq> 19)"

definition length_violation :: "byte list \<Rightarrow> bool" where
  "length_violation buf =
     (case buf of
        _ # n # _ \<Rightarrow> n \<noteq> of_int (int (length buf) - 3)
      | _ \<Rightarrow> False)"

text \<open>
  \<open>r_frame header checksum\<close>: one frame for the packets 7 and 19, in reads of three and
  five bytes. \<open>r_two_frames script\<close>: two frames for packet 7 under a given script of
  reads; in \<open>script_error_in_frame\<close> the second read fails (not with \<open>io.EOF\<close>) after two
  bytes of the first frame, in \<open>script_pause_in_frame\<close> \<open>PauseStream\<close> is called during
  the first read, in \<open>script_closed_in_frame\<close> the second read returns \<open>io.EOF\<close>.
\<close>

definition r_frame :: "byte \<Rightarrow> byte \<Rightarrow> Roomba" where
  "r_frame header checksum =
     \<lparr>incoming = [header, 5, 7, 5, 19, 1, 2, checksum],
      reads = [Rd 3 None False, Rd 5 None False],
      writes = [], outgoing = [], StreamPaused = False\<rparr>"

definition r_two_frames :: "rd list \<Rightarrow> Roomba" where
  "r_two_frames script =
     \<lparr>incoming = [19, 2, 7, 5, 242, 19, 2, 7, 6, 241], reads = script,
      writes = [], outgoing = [], StreamPaused = False\<rparr>"

definition script_error_in_frame :: "bool \<Rightarrow> rd list" where
  "script_error_in_frame pause =
     [Rd 2 None pause, Rd 0 (Some ErrOther) False, Rd 5 None False, Rd 5 None False]"

definition script_pause_in_frame :: "rd list" where
  "script_pause_in_frame = [Rd 2 None True, Rd 3 None False, Rd 5 None False]"

definition script_closed_in_frame :: "rd list" where
  "script_closed_in_frame = [Rd 2 None False, Rd 0 (Some EOF) False]"

text \<open>
  \<open>r_frames bytes script\<close>: the robot sends \<open>bytes\<close> under the given script of reads.
  \<open>group_entries\<close>: entries for seven registered packets whose frame is 256 bytes long.
\<close>

definition r_frames :: "byte list \<Rightarrow> rd list \<Rightarrow> Roomba" where
  "r_frames bytes script =
     \<lparr>incoming = bytes, reads = script, writes = [], outgoing = [], StreamPaused = False\<rparr>"


section \<open>Properties\<close>

subsection \<open>The sensor packet lengths\<close>

lemma registered_length_pos: "SENSOR_PACKET_LENGTH c = Some l \<Longrightarrow> 0 < l"
  unfolding SENSOR_PACKET_LENGTH_def SENSOR_PACKET_LENGTH_entries_def
  by (drule map_of_SomeD) auto

lemma registry_by_code:
  "map SENSOR_PACKET_LENGTH (map of_nat [0..<43]) =
     map Some [26, 10, 6, 10, 14, 12, 52,
               1, 1, 1, 1, 1, 1, 1, 1, 1, 1, 1, 1, 2, 2, 1, 2, 2, 1, 2, 2,
               2, 2, 2, 2, 2, 1, 2, 1, 1, 1, 1, 1, 2, 2, 2, 2]"
  by (simp add: SENSOR_PACKET_LENGTH_def SENSOR_PACKET_LENGTH_entries_def upt_rec)

lemma registry_nth:
  assumes "c \<le> 42"
  shows "SENSOR_PACKET_LENGTH c =
     Some ([26, 10, 6, 10, 14, 12, 52,
            1, 1, 1, 1, 1, 1, 1, 1, 1, 1, 1, 1, 2, 2, 1, 2, 2, 1, 2, 2,
            2, 2, 2, 2, 2, 1, 2, 1, 1, 1, 1, 1, 2, 2, 2, 2] ! unat c)"
proof -
  from assms have lt: "unat c < 43" by (simp add: word_le_nat_alt)
  have "SENSOR_PACKET_LENGTH c = map SENSOR_PACKET_LENGTH (map of_nat [0..<43]) ! unat c"
    using lt by simp
  also have "\<dots> = map Some [26, 10, 6, 10, 14, 12, 52,
               1, 1, 1, 1, 1, 1, 1, 1, 1, 1, 1, 1, 2, 2, 1, 2, 2, 1, 2, 2,
               2, 2, 2, 2, 2, 1, 2, 1, 1, 1, 1, 1, 2, 2, 2, 2] ! unat c"
    by (simp only: registry_by_code)
  also have "\<dots> = Some ([26, 10, 6, 10, 14, 12, 52,
               1, 1, 1, 1, 1, 1, 1, 1, 1, 1, 1, 1, 2, 2, 1, 2, 2, 1, 2, 2,
               2, 2, 2, 2, 2, 1, 2, 1, 1, 1, 1, 1, 2, 2, 2, 2] ! unat c)"
    by (rule nth_map) (use lt in simp)
  finally show ?thesis .
qed

lemma registry_none: "\<not> c \<le> 42 \<Longrightarrow> SENSOR_PACKET_LENGTH c = None"
  by (auto simp: SENSOR_PACKET_LENGTH_def SENSOR_PACKET_LENGTH_entries_def word_le_nat_alt)

lemma one_or_two_from_7:
  "7 \<le> n \<Longrightarrow> n < 43 \<Longrightarrow>
   ([26, 10, 6, 10, 14, 12, 52,
     1, 1, 1, 1, 1, 1, 1, 1, 1, 1, 1, 1, 2, 2, 1, 2, 2, 1, 2, 2,
     2, 2, 2, 2, 2, 1, 2, 1, 1, 1, 1, 1, 2, 2, 2, 2 :: byte] ! n) \<in> {1, 2}"
proof -
  assume "7 \<le> n" "n < 43"
  then have n: "n \<in> set [7..<43]" by (simp only: set_upt atLeastLessThan_iff)
  have "list_all (\<lambda>n. ([26, 10, 6, 10, 14, 12, 52,
     1, 1, 1, 1, 1, 1, 1, 1, 1, 1, 1, 1, 2, 2, 1, 2, 2, 1, 2, 2,
     2, 2, 2, 2, 2, 1, 2, 1, 1, 1, 1, 1, 2, 2, 2, 2 :: byte] ! n) \<in> {1, 2}) [7..<43]"
    by (simp add: upt_rec)
  with n show ?thesis by (simp only: list_all_iff)
qed

text \<open>
  Claim C6, as amended: the registry holds exactly the codes 0 to 42; every code from 7
  to 42 (the single sensor packets) has length 1 or 2; the codes 0 to 6 (the group
  packets) have the lengths 26, 10, 6, 10, 14, 12 and 52.
\<close>

theorem sensor_length_registry:
  "(SENSOR_PACKET_LENGTH c \<noteq> None \<longleftrightarrow> c \<le> 42) \<and>
   (7 \<le> c \<and> c \<le> 42 \<longrightarrow> SENSOR_PACKET_LENGTH c = Some 1 \<or> SENSOR_PACKET_LENGTH c = Some 2) \<and>
   map SENSOR_PACKET_LENGTH [0, 1, 2, 3, 4, 5, 6] =
     [Some 26, Some 10, Some 6, Some 10, Some 14, Some 12, Some 52]"
proof (intro conjI impI)
  show "SENSOR_PACKET_LENGTH c \<noteq> None \<longleftrightarrow> c \<le> 42"
    using registry_nth [of c] registry_none [of c] by (cases "c \<le> 42") simp_all
  show "map SENSOR_PACKET_LENGTH [0, 1, 2, 3, 4, 5, 6] =
     [Some 26, Some 10, Some 6, Some 10, Some 14, Some 12, Some 52]"
    by (simp add: SENSOR_PACKET_LENGTH_def SENSOR_PACKET_LENGTH_entries_def)
next
  assume h: "7 \<le> c \<and> c \<le> 42"
  then have "7 \<le> unat c" "unat c < 43" by (simp_all add: word_le_nat_alt)
  from one_or_two_from_7 [OF this] registry_nth [of c] h
  show "SENSOR_PACKET_LENGTH c = Some 1 \<or> SENSOR_PACKET_LENGTH c = Some 2" by auto
qed

theorem sensor_length_registry_witness:
  "(7 :: SensorCode) \<le> SENSOR_DISTANCE \<and> SENSOR_DISTANCE \<le> 42 \<and>
   SENSOR_PACKET_LENGTH SENSOR_DISTANCE = Some 2 \<and> SENSOR_PACKET_LENGTH 43 = None \<and>
   SENSOR_PACKET_LENGTH 3 = Some 10"
proof -
  have a: "(7 :: SensorCode) \<le> SENSOR_DISTANCE \<and> SENSOR_DISTANCE \<le> 42"
    and n: "\<not> (43 :: SensorCode) \<le> 42"
    by (simp_all add: word_le_nat_alt)
  have b: "SENSOR_PACKET_LENGTH SENSOR_DISTANCE \<noteq> Some 1"
    by (simp add: SENSOR_PACKET_LENGTH_def SENSOR_PACKET_LENGTH_entries_def)
  from sensor_length_registry [of SENSOR_DISTANCE] sensor_length_registry [of 43] a n b
  show ?thesis by simp
qed

text \<open>
  Claim C6 as the specification states it (every registered length is 1 or 2) fails at
  code 0, registered with length 26.
\<close>

theorem sensor_length_not_one_or_two:
  "SENSOR_PACKET_LENGTH 0 = Some 26 \<and> (26 :: byte) \<noteq> 1 \<and> (26 :: byte) \<noteq> 2"
  by (simp add: SENSOR_PACKET_LENGTH_def SENSOR_PACKET_LENGTH_entries_def)

subsection \<open>The value encoder\<close>

lemma byte_digit:
  fixes v :: "'a::len word"
  shows "(of_nat (unat v div 256 ^ k mod 256) :: byte) = ucast (drop_bit (8 * k) v)"
proof -
  have "unat (ucast (drop_bit (8 * k) v) :: byte) = unat v div 256 ^ k mod 256"
    by (simp add: unsigned_ucast_eq unat_drop_bit_eq drop_bit_eq_div [of "8 * k" "unat v"]
          take_bit_eq_mod power_mult)
  moreover have "unat (of_nat (unat v div 256 ^ k mod 256) :: byte) = unat v div 256 ^ k mod 256"
    by (simp add: unat_of_nat)
  ultimately show ?thesis by (simp add: word_unat_eq_iff)
qed

lemma sint_mod_unat:
  fixes v :: "'a::len word"
  shows "nat (sint v mod 2 ^ LENGTH('a)) = unat v"
proof -
  have "sint v mod 2 ^ LENGTH('a) = uint v"
    by (simp add: uint_sint take_bit_eq_mod)
  then show ?thesis by simp
qed

lemma upt_2: "[0..<2] = [0, Suc 0]" by (simp add: upt_rec)
lemma upt_4: "[0..<4] = [0, 1, 2, 3]" by (simp add: upt_rec)
lemma upt_8: "[0..<8] = [0, 1, 2, 3, 4, 5, 6, 7]" by (simp add: upt_rec)

lemma big_endian_1: "big_endian 1 (unat (v :: 8 word)) = [v]"
  using byte_digit [of v 0] by (simp add: big_endian_def)

lemma big_endian_2: "big_endian 2 (unat (v :: 16 word)) = PutUint16 v"
  using byte_digit [of v 1] byte_digit [of v 0]
  by (simp add: big_endian_def PutUint16_def upt_2)

lemma big_endian_4: "big_endian 4 (unat (v :: 32 word)) = PutUint32 v"
  using byte_digit [of v 3] byte_digit [of v 2] byte_digit [of v 1] byte_digit [of v 0]
  by (simp add: big_endian_def PutUint32_def upt_4)

lemma big_endian_8: "big_endian 8 (unat (v :: 64 word)) = PutUint64 v"
  using byte_digit [of v 7] byte_digit [of v 6] byte_digit [of v 5] byte_digit [of v 4]
    byte_digit [of v 3] byte_digit [of v 2] byte_digit [of v 1] byte_digit [of v 0]
  by (simp add: big_endian_def PutUint64_def upt_8)

lemma binary_Write_big_endian:
  "v \<noteq> NotFixedSize \<Longrightarrow> binary_Write buf v = Some (buf @ big_endian_representation v)"
  using sint_mod_unat [where 'a = 8] sint_mod_unat [where 'a = 16]
    sint_mod_unat [where 'a = 32] sint_mod_unat [where 'a = 64]
  by (cases v)
     (simp_all add: big_endian_representation_def big_endian_1 [simplified] big_endian_2
        big_endian_4 big_endian_8)

lemma length_big_endian_representation: "length (big_endian_representation v) = width v"
  by (simp add: big_endian_representation_def big_endian_def)

lemma Pack_loop_big_endian:
  "NotFixedSize \<notin> set data \<Longrightarrow>
   Pack_loop buf data = Inr (buf @ concat (map big_endian_representation data))"
proof (induction data arbitrary: buf)
  case Nil
  show ?case by simp
next
  case (Cons v data)
  then have "v \<noteq> NotFixedSize" and "NotFixedSize \<notin> set data" by auto
  with Cons.IH show ?case by (simp add: binary_Write_big_endian)
qed

text \<open>
  Claim C8: \<open>Pack\<close> maps a sequence of fixed-width integers to the concatenation of
  their big-endian representations, with nothing before, between or after them (the
  length is the sum of the widths); \<open>[int16(-500), int16(2000)]\<close> gives \<open>FE 0C 07 D0\<close>.
\<close>

theorem Pack_big_endian:
  "(NotFixedSize \<notin> set data \<longrightarrow>
      Pack data = Inr (concat (map big_endian_representation data)) \<and>
      length (concat (map big_endian_representation data)) = sum_list (map width data)) \<and>
   Pack [Int16 (- 500), Int16 2000] = Inr [0xFE, 0x0C, 0x07, 0xD0]"
proof -
  have "length (concat (map big_endian_representation data)) = sum_list (map width data)"
    by (simp add: length_concat length_big_endian_representation comp_def)
  moreover have "Pack [Int16 (- 500), Int16 2000] = Inr [0xFE, 0x0C, 0x07, 0xD0]"
    by (simp add: Pack_def PutUint16_def drop_bit_eq_div)
  ultimately show ?thesis
    by (simp add: Pack_def Pack_loop_big_endian)
qed

theorem Pack_big_endian_witness:
  "NotFixedSize \<notin> set [Int16 (- 500), Int16 2000] \<and>
   concat (map big_endian_representation [Int16 (- 500), Int16 2000]) = [0xFE, 0x0C, 0x07, 0xD0] \<and>
   sum_list (map width [Int16 (- 500), Int16 2000]) = 4"
  using Pack_big_endian [of "[Int16 (- 500), Int16 2000]"]
  by auto

subsection \<open>Drive\<close>

text \<open>
  Claim C5 says that \<open>Drive(velocity, 32767)\<close> writes the drive command for every
  velocity from -500 to 500. The code returns its \<open>invalid readius\<close> error for
  each of them and leaves the transport untouched, although its own comment documents
  32767 (hex 7FFF) as the radius for driving straight.
\<close>

theorem Drive_straight_radius_rejected:
  "Drive velocity 0x7FFF r =
     (Inr (Some (if - 500 \<le> sint velocity \<and> sint velocity \<le> 500
                 then InvalidRadius 0x7FFF else InvalidVelocity velocity)), r)"
  by (simp add: Drive_def)

lemma Drive_200_minus_100:
  "writes r = [] \<Longrightarrow>
   Drive 200 (- 100) r = (Inr None, r\<lparr>outgoing := outgoing r @ [137, 0x00, 0xC8, 0xFF, 0x9C]\<rparr>)"
  by (simp add: Drive_def Pack_def PutUint16_def Write_def S_Write_def drop_bit_eq_div)

subsection \<open>Sensors and QueryList\<close>

text \<open>
  Claim C1 says that \<open>Sensors\<close> returns the bytes in delivery order however the
  transport fragments them. For packet 2 (six bytes) delivered in reads of one, one and
  four bytes, the third read is handed \<open>result[1:]\<close> again and overwrites the second
  byte: the call returns \<open>1 3 4 5 6 0\<close> with a \<open>nil\<close> error.
\<close>

theorem Sensors_three_fragments:
  "SENSOR_PACKET_LENGTH 2 = Some 6 \<and>
   take 6 (incoming r_fragments) = [1, 2, 3, 4, 5, 6] \<and>
   Sensors 2 r_fragments =
     (([1, 3, 4, 5, 6, 0], None),
      r_fragments\<lparr>incoming := [], reads := [], outgoing := [142, 2]\<rparr>)"
  by (simp add: Sensors_def SENSOR_PACKET_LENGTH_def SENSOR_PACKET_LENGTH_entries_def
      r_fragments_def Write_def S_Write_def read_packet.simps Read_def S_Read_def Let_def)

text \<open>
  With two fragments the loop does fill the buffer: packet 19 (two bytes), one byte per
  read.
\<close>

lemma Sensors_two_fragments:
  "Sensors SENSOR_DISTANCE (r_fragments\<lparr>reads := [Rd 1 None False, Rd 1 None False]\<rparr>) =
     (([1, 2], None),
      r_fragments\<lparr>incoming := [3, 4, 5, 6], reads := [], outgoing := [142, 19]\<rparr>)"
  by (simp add: Sensors_def SENSOR_PACKET_LENGTH_def SENSOR_PACKET_LENGTH_entries_def
      r_fragments_def Write_def S_Write_def read_packet.simps Read_def S_Read_def Let_def)

lemma S_Read_same_input:
  "same_input r1 r2 \<Longrightarrow>
   fst (S_Read k r1) = fst (S_Read k r2) \<and> fst (snd (S_Read k r1)) = fst (snd (S_Read k r2)) \<and>
   same_input (snd (snd (S_Read k r1))) (snd (snd (S_Read k r2)))"
  by (auto simp: same_input_def S_Read_def Let_def split: list.splits rd.splits)

lemma read_packet_same_input:
  "same_input r1 r2 \<Longrightarrow>
   fst (read_packet packetId result n bytesToRead r1) =
     fst (read_packet packetId result n bytesToRead r2) \<and>
   same_input (snd (read_packet packetId result n bytesToRead r1))
     (snd (read_packet packetId result n bytesToRead r2))"
proof (induction packetId result n bytesToRead r1 arbitrary: r2 rule: read_packet.induct)
  case (1 packetId result n bytesToRead r1)
  show ?case
  proof (cases "(of_nat n :: byte) < bytesToRead \<and> \<not> length result < n")
    case False
    then show ?thesis using "1.prems"
      by (subst (1 2 3 4) read_packet.simps) auto
  next
    case True
    obtain d err r1' where rd1: "Read (length result - n) r1 = (d, err, r1')"
      by (cases "Read (length result - n) r1") auto
    obtain d2 err2 r2' where rd2: "Read (length result - n) r2 = (d2, err2, r2')"
      by (cases "Read (length result - n) r2") auto
    from S_Read_same_input [OF "1.prems", of "length result - n"] rd1 rd2
    have eq: "d2 = d" "err2 = err" and same: "same_input r1' r2'"
      by (simp_all add: Read_def)
    show ?thesis
    proof (cases err)
      case None
      from True have c1: "(of_nat n :: byte) < bytesToRead" and c2: "\<not> length result < n" by auto
      from "1.IH" [OF c1 c2 rd1 [symmetric] refl None same]
      show ?thesis using True rd1 rd2 eq None
        by (subst (1 2 3 4) read_packet.simps) simp
    next
      case (Some e)
      then show ?thesis using True rd1 rd2 eq same
        by (subst (1 2 3 4) read_packet.simps) simp
    qed
  qed
qed

lemma read_packet_no_write_failure:
  "snd (fst (read_packet packetId result n bytesToRead r)) = Some e \<Longrightarrow> \<not> write_failure e"
proof (induction packetId result n bytesToRead r rule: read_packet.induct)
  case (1 packetId result n bytesToRead r)
  show ?case
  proof (cases "(of_nat n :: byte) < bytesToRead \<and> \<not> length result < n")
    case False
    then show ?thesis using "1.prems"
      by (subst (asm) read_packet.simps) (auto split: if_splits)
  next
    case True
    obtain d err r' where rd: "Read (length result - n) r = (d, err, r')"
      by (cases "Read (length result - n) r") auto
    show ?thesis
    proof (cases err)
      case None
      from True have c1: "(of_nat n :: byte) < bytesToRead" and c2: "\<not> length result < n" by auto
      from "1.prems" True rd None
      have "snd (fst (read_packet packetId (take n result @ d @ drop (n + length d) result)
                   (length d) (bytesToRead - of_nat n) r')) = Some e"
        by (subst (asm) read_packet.simps) simp
      from "1.IH" [OF c1 c2 rd [symmetric] refl None this] show ?thesis .
    next
      case (Some io)
      with "1.prems" True rd show ?thesis
        by (subst (asm) read_packet.simps) auto
    qed
  qed
qed

lemma Write_same_input: "same_input (snd (Write opcode p r)) r"
  by (auto simp: Write_def S_Write_def same_input_def Let_def split: list.splits wr.splits prod.splits)


lemma read_packet_reads_le:
  "length (reads (snd (read_packet packetId result n bytesToRead r))) \<le> length (reads r)"
proof (induction packetId result n bytesToRead r rule: read_packet.induct)
  case (1 packetId result n bytesToRead r)
  show ?case
  proof (cases "(of_nat n :: byte) < bytesToRead \<and> \<not> length result < n")
    case False
    then show ?thesis
      by (subst read_packet.simps) auto
  next
    case True
    obtain d err r' where rd: "Read (length result - n) r = (d, err, r')"
      by (cases "Read (length result - n) r") auto
    from rd have le: "length (reads r') \<le> length (reads r)"
      using S_Read_facts by (auto simp: Read_def)
    show ?thesis
    proof (cases err)
      case None
      from True have c1: "(of_nat n :: byte) < bytesToRead" and c2: "\<not> length result < n" by auto
      from "1.IH" [OF c1 c2 rd [symmetric] refl None] le show ?thesis
        using True rd None by (subst read_packet.simps) simp
    next
      case (Some io)
      with True rd le show ?thesis
        by (subst read_packet.simps) simp
    qed
  qed
qed

lemma read_packet_first_read:
  assumes "0 < bytesToRead" and "reads r \<noteq> []"
  shows "length (reads (snd (read_packet packetId result 0 bytesToRead r))) < length (reads r)"
proof -
  obtain d err r' where rd: "Read (length result) r = (d, err, r')"
    by (cases "Read (length result) r") auto
  with assms(2) have lt: "length (reads r') < length (reads r)"
    by (auto simp: Read_def S_Read_def Let_def split: list.splits rd.splits)
  show ?thesis
  proof (cases err)
    case None
    with assms(1) rd have "read_packet packetId result 0 bytesToRead r =
        read_packet packetId (d @ drop (length d) result) (length d) bytesToRead r'"
      by (subst read_packet.simps) simp
    with read_packet_reads_le [of packetId "d @ drop (length d) result" "length d" bytesToRead r'] lt
    show ?thesis by simp
  next
    case (Some io)
    with assms(1) rd lt show ?thesis
      by (subst read_packet.simps) simp
  qed
qed

lemma QueryList_loop_same_input:
  "same_input r1 r2 \<Longrightarrow>
   fst (QueryList_loop packetIds result i r1) = fst (QueryList_loop packetIds result i r2) \<and>
   same_input (snd (QueryList_loop packetIds result i r1))
     (snd (QueryList_loop packetIds result i r2))"
proof (induction packetIds arbitrary: result i r1 r2)
  case Nil
  then show ?case by simp
next
  case (Cons packetId packetIds)
  define l where "l = (case SENSOR_PACKET_LENGTH packetId of Some l \<Rightarrow> l | None \<Rightarrow> 0)"
  obtain entry err r1' where p1:
    "read_packet packetId (replicate (unat l) 0) 0 l r1 = ((entry, err), r1')"
    by (cases "read_packet packetId (replicate (unat l) 0) 0 l r1") auto
  obtain entry2 err2 r2' where p2:
    "read_packet packetId (replicate (unat l) 0) 0 l r2 = ((entry2, err2), r2')"
    by (cases "read_packet packetId (replicate (unat l) 0) 0 l r2") auto
  from read_packet_same_input [OF Cons.prems, of packetId "replicate (unat l) 0" 0 l] p1 p2
  have eq: "entry2 = entry" "err2 = err" and same: "same_input r1' r2'" by simp_all
  show ?case
  proof (cases err)
    case None
    with Cons.IH [OF same] p1 p2 eq show ?thesis by (simp add: l_def [symmetric])
  next
    case (Some e)
    with p1 p2 eq same show ?thesis by (simp add: l_def [symmetric])
  qed
qed

lemma QueryList_loop_no_write_failure:
  "snd (fst (QueryList_loop packetIds result i r)) = Some e \<Longrightarrow> \<not> write_failure e"
proof (induction packetIds arbitrary: result i r)
  case Nil
  then show ?case by simp
next
  case (Cons packetId packetIds)
  define l where "l = (case SENSOR_PACKET_LENGTH packetId of Some l \<Rightarrow> l | None \<Rightarrow> 0)"
  obtain entry err r' where p:
    "read_packet packetId (replicate (unat l) 0) 0 l r = ((entry, err), r')"
    by (cases "read_packet packetId (replicate (unat l) 0) 0 l r") auto
  show ?case
  proof (cases err)
    case None
    with Cons.prems p have "snd (fst (QueryList_loop packetIds (result[i := entry]) (Suc i) r')) = Some e"
      by (simp add: l_def [symmetric])
    then show ?thesis by (rule Cons.IH)
  next
    case (Some e')
    with Cons.prems p have "e' = e" by (simp add: l_def [symmetric])
    with read_packet_no_write_failure [of packetId "replicate (unat l) 0" 0 l r e] p Some
    show ?thesis by simp
  qed
qed

lemma find_unknown_None:
  "(find (\<lambda>packetId. SENSOR_PACKET_LENGTH packetId = None) packetIds = None) \<longleftrightarrow>
   (\<forall>packetId \<in> set packetIds. SENSOR_PACKET_LENGTH packetId \<noteq> None)"
  by (auto simp: find_None_iff)

lemma QueryList_loop_reads_le:
  "length (reads (snd (QueryList_loop packetIds result i r))) \<le> length (reads r)"
proof (induction packetIds arbitrary: result i r)
  case Nil
  show ?case by simp
next
  case (Cons packetId packetIds)
  define l where "l = (case SENSOR_PACKET_LENGTH packetId of Some l \<Rightarrow> l | None \<Rightarrow> 0)"
  obtain entry err r' where p:
    "read_packet packetId (replicate (unat l) 0) 0 l r = ((entry, err), r')"
    by (cases "read_packet packetId (replicate (unat l) 0) 0 l r") auto
  from read_packet_reads_le [of packetId "replicate (unat l) 0" 0 l r] p
  have le: "length (reads r') \<le> length (reads r)" by simp
  show ?case
  proof (cases err)
    case None
    with Cons.IH [of "result[i := entry]" "Suc i" r'] le p show ?thesis
      by (simp add: l_def [symmetric])
  next
    case (Some e)
    with le p show ?thesis by (simp add: l_def [symmetric])
  qed
qed

lemma QueryList_loop_first_read:
  assumes "SENSOR_PACKET_LENGTH packetId = Some l" and "reads r \<noteq> []"
  shows "length (reads (snd (QueryList_loop (packetId # packetIds) result i r)))
           < length (reads r)"
proof -
  obtain entry err r' where p:
    "read_packet packetId (replicate (unat l) 0) 0 l r = ((entry, err), r')"
    by (cases "read_packet packetId (replicate (unat l) 0) 0 l r") auto
  from read_packet_first_read [OF registered_length_pos [OF assms(1)] assms(2),
      of packetId "replicate (unat l) 0"] p
  have lt: "length (reads r') < length (reads r)" by simp
  show ?thesis
  proof (cases err)
    case None
    with QueryList_loop_reads_le [of packetIds "result[i := entry]" "Suc i" r'] lt p assms(1)
    show ?thesis by simp
  next
    case (Some e)
    with lt p assms(1) show ?thesis by simp
  qed
qed

text \<open>
  Claim C10: when the write of the request fails or is partial, \<open>Sensors\<close> and
  \<open>QueryList\<close> return what they return when it succeeds (so no error of the write
  reaches the caller), and they go on to read: a scripted read is consumed.
\<close>

theorem write_error_discarded:
  "(SENSOR_PACKET_LENGTH packetId \<noteq> None \<and> fst (Write Sensors_op [packetId] r) \<noteq> None \<longrightarrow>
      fst (Sensors packetId r) = fst (Sensors packetId (r\<lparr>writes := []\<rparr>)) \<and>
      (\<forall>e. snd (fst (Sensors packetId r)) = Some e \<longrightarrow> \<not> write_failure e) \<and>
      (reads r \<noteq> [] \<longrightarrow> length (reads (snd (Sensors packetId r))) < length (reads r))) \<and>
   ((\<forall>packetId \<in> set packetIds. SENSOR_PACKET_LENGTH packetId \<noteq> None) \<and>
    fst (Write QueryList_op (of_nat (length packetIds) # packetIds) r) \<noteq> None \<longrightarrow>
      fst (QueryList packetIds r) = fst (QueryList packetIds (r\<lparr>writes := []\<rparr>)) \<and>
      (\<forall>e. snd (fst (QueryList packetIds r)) = Some e \<longrightarrow> \<not> write_failure e) \<and>
      (packetIds \<noteq> [] \<and> reads r \<noteq> [] \<longrightarrow>
         length (reads (snd (QueryList packetIds r))) < length (reads r)))"
proof (intro conjI impI)
  assume h: "SENSOR_PACKET_LENGTH packetId \<noteq> None \<and> fst (Write Sensors_op [packetId] r) \<noteq> None"
  then obtain l where l: "SENSOR_PACKET_LENGTH packetId = Some l" by auto
  let ?r1 = "snd (Write Sensors_op [packetId] r)"
  let ?r2 = "snd (Write Sensors_op [packetId] (r\<lparr>writes := []\<rparr>))"
  have s1: "Sensors packetId r = read_packet packetId (replicate (unat l) 0) 0 l ?r1"
    by (simp add: Sensors_def l split: prod.splits)
  have s2: "Sensors packetId (r\<lparr>writes := []\<rparr>) =
              read_packet packetId (replicate (unat l) 0) 0 l ?r2"
    by (simp add: Sensors_def l split: prod.splits)
  have same: "same_input ?r1 ?r2"
    using Write_same_input [of Sensors_op "[packetId]" r]
      Write_same_input [of Sensors_op "[packetId]" "r\<lparr>writes := []\<rparr>"]
    by (simp add: same_input_def)
  show "fst (Sensors packetId r) = fst (Sensors packetId (r\<lparr>writes := []\<rparr>))"
    using read_packet_same_input [OF same] by (simp add: s1 s2)
  show "\<forall>e. snd (fst (Sensors packetId r)) = Some e \<longrightarrow> \<not> write_failure e"
    using read_packet_no_write_failure by (simp add: s1)
  show "length (reads (snd (Sensors packetId r))) < length (reads r)" if "reads r \<noteq> []"
  proof -
    have "reads ?r1 = reads r"
      using Write_same_input [of Sensors_op "[packetId]" r] by (simp add: same_input_def)
    with read_packet_first_read [OF registered_length_pos [OF l], of ?r1] that
    show ?thesis by (simp add: s1)
  qed
next
  assume h: "(\<forall>packetId \<in> set packetIds. SENSOR_PACKET_LENGTH packetId \<noteq> None) \<and>
    fst (Write QueryList_op (of_nat (length packetIds) # packetIds) r) \<noteq> None"
  let ?b = "of_nat (length packetIds) # packetIds"
  let ?r1 = "snd (Write QueryList_op ?b r)"
  let ?r2 = "snd (Write QueryList_op ?b (r\<lparr>writes := []\<rparr>))"
  let ?res = "replicate (length packetIds) []"
  from h have known: "find (\<lambda>packetId. SENSOR_PACKET_LENGTH packetId = None) packetIds = None"
    by (simp add: find_unknown_None)
  have q1: "QueryList packetIds r = QueryList_loop packetIds ?res 0 ?r1"
    by (simp add: QueryList_def known split: prod.splits)
  have q2: "QueryList packetIds (r\<lparr>writes := []\<rparr>) = QueryList_loop packetIds ?res 0 ?r2"
    by (simp add: QueryList_def known split: prod.splits)
  have same: "same_input ?r1 ?r2"
    using Write_same_input [of QueryList_op ?b r]
      Write_same_input [of QueryList_op ?b "r\<lparr>writes := []\<rparr>"]
    by (simp add: same_input_def)
  show "fst (QueryList packetIds r) = fst (QueryList packetIds (r\<lparr>writes := []\<rparr>))"
    using QueryList_loop_same_input [OF same] by (simp add: q1 q2)
  show "\<forall>e. snd (fst (QueryList packetIds r)) = Some e \<longrightarrow> \<not> write_failure e"
    using QueryList_loop_no_write_failure by (simp add: q1)
  show "length (reads (snd (QueryList packetIds r))) < length (reads r)"
    if "packetIds \<noteq> [] \<and> reads r \<noteq> []"
  proof -
    from that obtain packetId' rest where ids: "packetIds = packetId' # rest"
      by (cases packetIds) auto
    with h obtain l where l: "SENSOR_PACKET_LENGTH packetId' = Some l" by auto
    have rr: "reads ?r1 = reads r"
      using Write_same_input [of QueryList_op ?b r] by (simp add: same_input_def)
    with that have ne: "reads ?r1 \<noteq> []" by simp
    have "length (reads (snd (QueryList_loop packetIds ?res 0 ?r1))) < length (reads ?r1)"
      using ne unfolding ids by (rule QueryList_loop_first_read [OF l])
    then show ?thesis by (simp only: q1 rr)
  qed
qed

theorem write_error_discarded_witness:
  "SENSOR_PACKET_LENGTH SENSOR_DISTANCE \<noteq> None \<and>
   fst (Write Sensors_op [SENSOR_DISTANCE] r_write_fails)
     = Some (FailedWritingOpcode Sensors_op) \<and>
   fst (Sensors SENSOR_DISTANCE r_write_fails) = ([10, 20], None) \<and>
   SENSOR_PACKET_LENGTH SENSOR_WALL \<noteq> None \<and>
   fst (Write QueryList_op [2, SENSOR_DISTANCE, SENSOR_WALL] r_write_fails)
     = Some (FailedWritingOpcode QueryList_op) \<and>
   fst (QueryList [SENSOR_DISTANCE, SENSOR_WALL] r_write_fails) = ([[10, 20], [30]], None) \<and>
   length (reads (snd (QueryList [SENSOR_DISTANCE, SENSOR_WALL] r_write_fails)))
     < length (reads r_write_fails)"
proof -
  have a: "SENSOR_PACKET_LENGTH SENSOR_DISTANCE \<noteq> None"
    and a': "SENSOR_PACKET_LENGTH SENSOR_WALL \<noteq> None"
    by (simp_all add: SENSOR_PACKET_LENGTH_def SENSOR_PACKET_LENGTH_entries_def)
  have b: "fst (Write Sensors_op [SENSOR_DISTANCE] r_write_fails)
             = Some (FailedWritingOpcode Sensors_op)"
    and b': "fst (Write QueryList_op [2, SENSOR_DISTANCE, SENSOR_WALL] r_write_fails)
              = Some (FailedWritingOpcode QueryList_op)"
    by (simp_all add: Write_def S_Write_def r_write_fails_def)
  have c: "fst (Sensors SENSOR_DISTANCE (r_write_fails\<lparr>writes := []\<rparr>)) = ([10, 20], None)"
    by (simp add: Sensors_def SENSOR_PACKET_LENGTH_def SENSOR_PACKET_LENGTH_entries_def
        r_write_fails_def Write_def S_Write_def read_packet.simps Read_def S_Read_def Let_def)
  have c': "fst (QueryList [SENSOR_DISTANCE, SENSOR_WALL] (r_write_fails\<lparr>writes := []\<rparr>))
              = ([[10, 20], [30]], None)"
    by (simp add: QueryList_def SENSOR_PACKET_LENGTH_def SENSOR_PACKET_LENGTH_entries_def
        r_write_fails_def Write_def S_Write_def read_packet.simps Read_def S_Read_def Let_def)
  have d: "reads r_write_fails \<noteq> []" by (simp add: r_write_fails_def)
  from write_error_discarded
         [of SENSOR_DISTANCE r_write_fails "[SENSOR_DISTANCE, SENSOR_WALL]"] a a' b b' c c' d
  show ?thesis by simp
qed

subsection \<open>The stream reader\<close>

lemma foldl_add_sum_list: "foldl (+) (a :: byte) xs = a + sum_list xs"
  by (induction xs arbitrary: a) (simp_all add: add.assoc)

lemma frame_entries_Cons:
  "frame_entries ((packetId, payload) # entries) = packetId # payload @ frame_entries entries"
  by (simp add: frame_entries_def)

lemma frame_entries_Nil: "frame_entries [] = []"
  by (simp add: frame_entries_def)

lemma frame_entries_nonempty: "entries \<noteq> [] \<Longrightarrow> frame_entries entries \<noteq> []"
  by (cases entries) (auto simp: frame_entries_def)

lemma entries_loop_wire:
  assumes "entries \<noteq> []" and "list_all registered_entry entries"
    and "i + length entries \<le> length result"
  shows "entries_loop result i chk (frame_entries entries @ [checksum]) =
           Inr (take i result @ map snd entries @ drop (i + length entries) result,
                chk + sum_list (frame_entries entries), [checksum])"
  using assms
proof (induction entries arbitrary: result i chk)
  case Nil
  then show ?case by simp
next
  case (Cons e entries)
  obtain packetId payload where e: "e = (packetId, payload)" by (cases e)
  from Cons.prems(2) e obtain l where l: "SENSOR_PACKET_LENGTH packetId = Some l"
    and len: "length payload = unat l"
    by (auto simp: registered_entry_def split: option.splits)
  from Cons.prems(3) have i: "i < length result" by simp
  have upd: "result[i := payload] = take i result @ payload # drop (Suc i) result"
    using i by (simp add: upd_conv_take_nth_drop)
  show ?case
  proof (cases "entries = []")
    case True
    with l len i upd show ?thesis
      by (simp add: e frame_entries_Cons frame_entries_Nil foldl_add_sum_list add.assoc)
  next
    case False
    then have ne: "length (frame_entries entries @ [checksum]) \<noteq> 1"
      using frame_entries_nonempty [OF False] by (cases "frame_entries entries") auto
    from Cons.prems have reg: "list_all registered_entry entries"
      and bound: "Suc i + length entries \<le> length (result[i := payload])" by simp_all
    have step: "entries_loop result i chk (frame_entries (e # entries) @ [checksum]) =
        entries_loop (result[i := payload]) (Suc i) (chk + packetId + sum_list payload)
          (frame_entries entries @ [checksum])"
      using l len i ne by (simp add: e frame_entries_Cons foldl_add_sum_list)
    have "take (Suc i) (result[i := payload]) = take i result @ [payload]"
      using i by (simp add: upd take_Suc_conv_app_nth nth_append)
    moreover have "drop (Suc i + length entries) (result[i := payload])
        = drop (i + length (e # entries)) result"
      by simp
    ultimately show ?thesis
      unfolding step
      using Cons.IH [OF False reg bound, of "chk + packetId + sum_list payload"]
      by (simp add: e frame_entries_Cons add.assoc del: entries_loop.simps)
  qed
qed

lemma process_frame_wire:
  assumes "entries \<noteq> []" and "list_all registered_entry entries"
    and "length entries = length packetIds"
  shows "process_frame packetIds (wire_frame entries checksum) =
           (if sum_list (tl (wire_frame entries checksum)) = 0 then Deliver (map snd entries)
            else Exit (ChecksumDidNotMatch (sum_list (tl (wire_frame entries checksum)))))"
proof -
  let ?n = "of_nat (length (frame_entries entries)) :: byte"
  have n: "(of_int (int (length (wire_frame entries checksum)) - 3) :: byte) = ?n"
    by (simp add: wire_frame_def)
  have loop: "entries_loop (replicate (length packetIds) []) 0 ?n
                (frame_entries entries @ [checksum]) =
              Inr (map snd entries, ?n + sum_list (frame_entries entries), [checksum])"
    using entries_loop_wire [OF assms(1,2), of 0 "replicate (length packetIds) []" ?n checksum]
      assms(3) by simp
  show ?thesis
    unfolding process_frame_def n
    by (simp add: wire_frame_def loop add.assoc)
qed

lemma S_Read_content:
  "S_Read v r = (d, e, r1) \<Longrightarrow>
     d = take (length d) (incoming r) \<and> length d \<le> v \<and> length d \<le> length (incoming r) \<and>
     incoming r1 = drop (length d) (incoming r) \<and>
     outgoing r1 = outgoing r \<and> writes r1 = writes r"
  by (cases "reads r") (auto simp: S_Read_def Let_def min_def split: rd.splits)

lemma splice_take:
  "k \<le> length buf \<Longrightarrow> take (k + length d) (take k buf @ d @ ys) = take k buf @ d"
  by simp

lemma splice_drop:
  "k + length d \<le> length buf \<Longrightarrow>
   drop (k + length d + c) (take k buf @ d @ drop (k + length d) buf) = drop (k + length d + c) buf"
  by (simp add: add.commute add.left_commute)

lemma take_add_drop: "take (n + c) xs = take n xs @ take c (drop n xs)"
  by (simp add: take_add)

lemma read_frame_content:
  "read_frame buf k r = (t, buf', r') \<Longrightarrow> k \<le> length buf \<Longrightarrow>
   \<exists>c. c \<le> length (incoming r) \<and> k + c \<le> length buf \<and>
       incoming r' = drop c (incoming r) \<and>
       buf' = take k buf @ take c (incoming r) @ drop (k + c) buf \<and>
       (t = FrameFull \<longrightarrow> k + c = length buf) \<and>
       outgoing r' = outgoing r \<and> writes r' = writes r"
proof (induction buf k r arbitrary: t buf' r' rule: read_frame.induct)
  case (1 buf bytesRead r)
  show ?case
  proof (cases "bytesRead < length buf")
    case False
    with "1.prems" have "t = FrameFull" "buf' = buf" "r' = r" "bytesRead = length buf"
      by (subst (asm) read_frame.simps; simp)+
    then show ?thesis by (intro exI [of _ 0]) simp
  next
    case True
    obtain d err r1 where rd: "S_Read (length buf - bytesRead) r = (d, err, r1)"
      by (cases "S_Read (length buf - bytesRead) r") auto
    from S_Read_content [OF rd]
    have d_eq: "take (length d) (incoming r) = d"
      and d_view: "length d \<le> length buf - bytesRead"
      and d_in: "length d \<le> length (incoming r)"
      and c: "incoming r1 = drop (length d) (incoming r)" "outgoing r1 = outgoing r"
        "writes r1 = writes r"
      by simp_all
    let ?b = "take bytesRead buf @ d @ drop (bytesRead + length d) buf"
    from d_view True have fit: "bytesRead + length d \<le> length buf" by simp
    have lenb: "length ?b = length buf" using fit by simp
    show ?thesis
    proof (cases err)
      case (Some e)
      from "1.prems"(1) True rd Some have "buf' = ?b" "r' = r1" "t \<noteq> FrameFull"
        by (subst (asm) read_frame.simps, cases e; simp)+
      with c fit d_eq d_in show ?thesis
        by (intro exI [of _ "length d"]) simp
    next
      case None
      from "1.prems"(1) True rd None
      have rec: "read_frame ?b (bytesRead + length d) r1 = (t, buf', r')"
        by (subst (asm) read_frame.simps) simp
      from fit lenb have "bytesRead + length d \<le> length ?b" by simp
      from "1.IH" [OF True rd [symmetric] refl None rec this]
      obtain c' where c': "c' \<le> length (incoming r1)"
        "bytesRead + length d + c' \<le> length ?b"
        "incoming r' = drop c' (incoming r1)"
        "buf' = take (bytesRead + length d) ?b @ take c' (incoming r1)
                  @ drop (bytesRead + length d + c') ?b"
        "t = FrameFull \<longrightarrow> bytesRead + length d + c' = length ?b"
        "outgoing r' = outgoing r1" "writes r' = writes r1"
        by blast
      have t1: "take (bytesRead + length d) ?b = take bytesRead buf @ d"
        using True by (intro splice_take) simp
      have t2: "drop (bytesRead + (length d + c')) ?b = drop (bytesRead + (length d + c')) buf"
        using splice_drop [OF fit, of c'] by (simp only: add.assoc)
      have t3: "take (length d + c') (incoming r) = d @ take c' (incoming r1)"
        using c d_eq by (simp add: take_add_drop)
      have "buf' = take bytesRead buf @ take (length d + c') (incoming r)
                     @ drop (bytesRead + (length d + c')) buf"
        using c'(4) by (simp only: t1 add.assoc t2 t3 append_assoc)
      moreover have "incoming r' = drop (length d + c') (incoming r)"
        using c'(3) c by (simp add: add.commute)
      moreover have "length d + c' \<le> length (incoming r)" using c'(1) c d_in by simp
      ultimately show ?thesis using c' c lenb
        by (intro exI [of _ "length d + c'"]) (simp add: add.assoc)
    qed
  qed
qed

lemma read_frame_full:
  assumes "read_frame buf 0 r = (FrameFull, buf', r')"
  shows "buf' = take (length buf) (incoming r) \<and> length buf \<le> length (incoming r) \<and>
         incoming r' = drop (length buf) (incoming r) \<and>
         outgoing r' = outgoing r \<and> writes r' = writes r"
  using read_frame_content [OF assms] by auto

lemma ReadStream_loop_paused:
  "StreamPaused r \<Longrightarrow>
   ReadStream_loop packetIds buf out receives r =
     \<lparr>final = snd (Write PauseResumeStream_op [0] (r\<lparr>StreamPaused := False\<rparr>)),
      out_frames = out, out_closed = True, exit = Paused\<rparr>"
  by (subst ReadStream_loop.simps) (simp split: prod.splits)

lemma ReadStream_loop_eof:
  "\<not> StreamPaused r \<Longrightarrow> read_frame buf 0 r = (FrameEOF, buf', r') \<Longrightarrow>
   ReadStream_loop packetIds buf out receives r =
     \<lparr>final = r', out_frames = out, out_closed = False, exit = ReturnedOnEOF\<rparr>"
  by (subst ReadStream_loop.simps) simp

lemma ReadStream_loop_goto:
  "\<not> StreamPaused r \<Longrightarrow> read_frame buf 0 r = (FrameGotoLoop, buf', r') \<Longrightarrow>
   ReadStream_loop packetIds buf out receives r = ReadStream_loop packetIds buf' out receives r'"
  by (subst ReadStream_loop.simps) simp

lemma ReadStream_loop_exit:
  "\<not> StreamPaused r \<Longrightarrow> read_frame buf 0 r = (FrameFull, buf', r') \<Longrightarrow>
   process_frame packetIds buf' = Exit f \<Longrightarrow>
   ReadStream_loop packetIds buf out receives r =
     \<lparr>final = r', out_frames = out, out_closed = False, exit = ProcessExit f\<rparr>"
  by (subst ReadStream_loop.simps) simp

lemma ReadStream_loop_blocked:
  "\<not> StreamPaused r \<Longrightarrow> read_frame buf 0 r = (FrameFull, buf', r') \<Longrightarrow>
   process_frame packetIds buf' = Deliver result \<Longrightarrow>
   ReadStream_loop packetIds buf out 0 r =
     \<lparr>final = r', out_frames = out, out_closed = False, exit = BlockedOnSend\<rparr>"
  by (subst ReadStream_loop.simps) simp

lemma ReadStream_loop_deliver:
  "\<not> StreamPaused r \<Longrightarrow> read_frame buf 0 r = (FrameFull, buf', r') \<Longrightarrow>
   process_frame packetIds buf' = Deliver result \<Longrightarrow>
   ReadStream_loop packetIds buf out (Suc receives) r =
     ReadStream_loop packetIds buf' (out @ [result]) receives r'"
  by (subst ReadStream_loop.simps) simp


lemma ReadStream_loop_closed_iff:
  "out_closed (ReadStream_loop packetIds buf out receives r) \<longleftrightarrow>
   exit (ReadStream_loop packetIds buf out receives r) = Paused"
proof (induction packetIds buf out receives r rule: ReadStream_loop.induct)
  case (1 packetIds buf out receives r)
  show ?case
  proof (cases "StreamPaused r")
    case True
    then show ?thesis by (simp add: ReadStream_loop_paused)
  next
    case False
    obtain t buf' r' where rf: "read_frame buf 0 r = (t, buf', r')"
      by (cases "read_frame buf 0 r") auto
    show ?thesis
    proof (cases t)
      case FrameEOF
      with False rf show ?thesis by (simp add: ReadStream_loop_eof)
    next
      case FrameGotoLoop
      with "1.IH"(2) [OF False rf [symmetric] refl FrameGotoLoop] False rf
      show ?thesis by (simp add: ReadStream_loop_goto)
    next
      case FrameFull
      show ?thesis
      proof (cases "process_frame packetIds buf'")
        case (Exit f)
        with False rf FrameFull show ?thesis by (simp add: ReadStream_loop_exit)
      next
        case (Deliver result)
        show ?thesis
        proof (cases receives)
          case 0
          with False rf FrameFull Deliver show ?thesis by (simp add: ReadStream_loop_blocked)
        next
          case (Suc receives')
          with "1.IH"(1) [OF False rf [symmetric] refl FrameFull Deliver Suc] False rf FrameFull
            Deliver
          show ?thesis by (simp add: ReadStream_loop_deliver)
        qed
      qed
    qed
  qed
qed

lemmas eval_defs = ReadStream_def Stream_def SENSOR_PACKET_LENGTH_def SENSOR_PACKET_LENGTH_entries_def
  ReadStream_loop.simps read_frame.simps process_frame_def S_Read_def S_Write_def Write_def Let_def
  r_frame_def r_two_frames_def

lemma process_frame_header_violation:
  "header_violation buf \<Longrightarrow> process_frame packetIds buf = Exit HeaderNot19"
  by (auto simp: header_violation_def process_frame_def split: list.splits)

lemma process_frame_length_violation:
  "\<not> header_violation buf \<Longrightarrow> length_violation buf \<Longrightarrow>
   process_frame packetIds buf = Exit InvalidNBytes"
  by (auto simp: header_violation_def length_violation_def process_frame_def split: list.splits)

lemma process_frame_frame_sum:
  assumes "entries \<noteq> []" and "list_all registered_entry entries"
    and "map fst entries = packetIds"
  shows "process_frame packetIds (wire_frame entries checksum) =
           (if frame_sum entries checksum = 0 then Deliver (map snd entries)
            else Exit (ChecksumDidNotMatch (frame_sum entries checksum)))"
proof -
  from assms(3) have "length entries = length packetIds" by auto
  from process_frame_wire [OF assms(1,2) this] show ?thesis
    by (simp add: frame_sum_def)
qed








text \<open>
  Claim C2, as amended: a frame with a wrong header byte, a wrong length byte or a wrong
  checksum ends the process (\<open>log.Fatalf\<close>); the frame is not delivered, the channel is
  not closed and nothing is written to the transport.
\<close>

theorem integrity_violation_ends_process:
  "\<not> StreamPaused r \<Longrightarrow> read_frame buf 0 r = (FrameFull, buf', r') \<Longrightarrow>
   (header_violation buf' \<longrightarrow>
      ReadStream_loop packetIds buf out receives r =
        \<lparr>final = r', out_frames = out, out_closed = False, exit = ProcessExit HeaderNot19\<rparr>) \<and>
   (\<not> header_violation buf' \<and> length_violation buf' \<longrightarrow>
      ReadStream_loop packetIds buf out receives r =
        \<lparr>final = r', out_frames = out, out_closed = False, exit = ProcessExit InvalidNBytes\<rparr>) \<and>
   (entries \<noteq> [] \<and> list_all registered_entry entries \<and> map fst entries = packetIds \<and>
    buf' = wire_frame entries checksum \<and> frame_sum entries checksum \<noteq> 0 \<longrightarrow>
      ReadStream_loop packetIds buf out receives r =
        \<lparr>final = r', out_frames = out, out_closed = False,
         exit = ProcessExit (ChecksumDidNotMatch (frame_sum entries checksum))\<rparr>) \<and>
   outgoing r' = outgoing r"
proof -
  assume np: "\<not> StreamPaused r" and rf: "read_frame buf 0 r = (FrameFull, buf', r')"
  note step = ReadStream_loop_exit [OF np rf, of packetIds _ out receives]
  have "outgoing r' = outgoing r" using read_frame_full [OF rf] by simp
  then show ?thesis
    using step process_frame_header_violation [of buf' packetIds]
      process_frame_length_violation [of buf' packetIds]
      process_frame_frame_sum [of entries packetIds checksum]
    by auto
qed

theorem integrity_violation_ends_process_witness:
  "header_violation [18, 5, 7, 5, 19, 1, 2, 217] \<and>
   ReadStream_loop [SENSOR_BUMP_WHEELS_DROPS, SENSOR_DISTANCE] (replicate 8 0) [] 1 (r_frame 18 217) =
     \<lparr>final = \<lparr>incoming = [], reads = [], writes = [], outgoing = [], StreamPaused = False\<rparr>,
      out_frames = [], out_closed = False, exit = ProcessExit HeaderNot19\<rparr> \<and>
   frame_sum [(SENSOR_BUMP_WHEELS_DROPS, [5]), (SENSOR_DISTANCE, [1, 2])] 200 = 239 \<and>
   ReadStream_loop [SENSOR_BUMP_WHEELS_DROPS, SENSOR_DISTANCE] (replicate 8 0) [] 1 (r_frame 19 200) =
     \<lparr>final = \<lparr>incoming = [], reads = [], writes = [], outgoing = [], StreamPaused = False\<rparr>,
      out_frames = [], out_closed = False, exit = ProcessExit (ChecksumDidNotMatch 239)\<rparr>"
proof -
  let ?entries = "[(SENSOR_BUMP_WHEELS_DROPS, [5]), (SENSOR_DISTANCE, [1, 2 :: byte])]"
  let ?end = "\<lparr>incoming = [], reads = [], writes = [], outgoing = [], StreamPaused = False\<rparr>"
  have reg: "list_all registered_entry ?entries"
    by (simp add: registered_entry_def SENSOR_PACKET_LENGTH_def SENSOR_PACKET_LENGTH_entries_def)
  have wf: "wire_frame ?entries 200 = [19, 5, 7, 5, 19, 1, 2, 200]"
    by (simp add: wire_frame_def frame_entries_def)
  have s: "frame_sum ?entries 200 = 239"
    by (simp add: frame_sum_def wf)
  have hv: "header_violation [18, 5, 7, 5, 19, 1, 2, 217]"
    by (simp add: header_violation_def)
  have np: "\<not> StreamPaused (r_frame h c)" for h c by (simp add: r_frame_def)
  have rf: "read_frame (replicate 8 0) 0 (r_frame h c) = (FrameFull, [h, 5, 7, 5, 19, 1, 2, c], ?end)"
    for h c
    by (simp add: read_frame.simps S_Read_def r_frame_def Let_def)
  from integrity_violation_ends_process
         [OF np rf, where packetIds = "[SENSOR_BUMP_WHEELS_DROPS, SENSOR_DISTANCE]"
            and out = "[]" and receives = 1 and h1 = 18 and c1 = 217]
    integrity_violation_ends_process
         [OF np rf, where packetIds = "[SENSOR_BUMP_WHEELS_DROPS, SENSOR_DISTANCE]"
            and out = "[]" and receives = 1 and h1 = 19 and c1 = 200 and entries = ?entries and checksum = 200]
    reg wf s hv
  show ?thesis by simp
qed

text \<open>
  Claim C2 as the specification states it (the session ends with the channel closed, the
  process goes on) fails for a frame whose header is 18, and for one whose checksum is
  off by one: the process exits and the channel stays open.
\<close>

theorem integrity_violation_not_recoverable:
  "exit (ReadStream [SENSOR_BUMP_WHEELS_DROPS, SENSOR_DISTANCE] 1 (r_frame 18 217))
     = ProcessExit HeaderNot19 \<and>
   out_closed (ReadStream [SENSOR_BUMP_WHEELS_DROPS, SENSOR_DISTANCE] 1 (r_frame 18 217)) = False \<and>
   exit (ReadStream [SENSOR_BUMP_WHEELS_DROPS, SENSOR_DISTANCE] 1 (r_frame 19 218))
     = ProcessExit (ChecksumDidNotMatch 1) \<and>
   out_closed (ReadStream [SENSOR_BUMP_WHEELS_DROPS, SENSOR_DISTANCE] 1 (r_frame 19 218)) = False"
  by (simp add: eval_defs)

lemma replicate_3: "replicate 3 x = [x, x, x]"
  by (simp add: numeral_3_eq_3)

lemmas eval_defs2 = eval_defs script_error_in_frame_def script_pause_in_frame_def
  script_closed_in_frame_def replicate_3 r_frames_def

text \<open>
  When the failed read comes before any byte of the frame, \<open>goto Loop\<close> is the retry it
  is meant to be: both frames are delivered.
\<close>

lemma retry_with_nothing_read:
  "ReadStream [SENSOR_BUMP_WHEELS_DROPS] 2
     (r_two_frames [Rd 0 (Some ErrOther) False, Rd 5 None False, Rd 5 None False]) =
     \<lparr>final = \<lparr>incoming = [], reads = [], writes = [], outgoing = [], StreamPaused = False\<rparr>,
      out_frames = [[[5]], [[6]]], out_closed = False, exit = ReturnedOnEOF\<rparr>"
  by (simp add: eval_defs2)

text \<open>
  Claim C3 says that after a failed read (not \<open>io.EOF\<close>) the accumulation of the frame
  resumes at the current offset. In the code \<open>bytesRead += n\<close> has kept the two bytes
  read so far, but \<open>goto Loop\<close> re-enters the default branch, where \<open>bytesRead := 0\<close>
  drops the offset: the first five bytes sent are a valid frame (at offset 2 the reader
  would complete and deliver it), the buffer is refilled from its start with the next
  five bytes, \<open>7 5 242 19 2\<close>, and the process exits on the header check.
\<close>

theorem retry_does_not_resume_at_offset:
  "process_frame [SENSOR_BUMP_WHEELS_DROPS]
     (take 5 (incoming (r_two_frames (script_error_in_frame False)))) = Deliver [[5]] \<and>
   read_frame (replicate 5 0) 0 (r_two_frames (script_error_in_frame False)) =
     (FrameGotoLoop, [19, 2, 0, 0, 0],
      \<lparr>incoming = [7, 5, 242, 19, 2, 7, 6, 241], reads = [Rd 5 None False, Rd 5 None False],
       writes = [], outgoing = [], StreamPaused = False\<rparr>) \<and>
   read_frame [19, 2, 0, 0, 0] 2
      \<lparr>incoming = [7, 5, 242, 19, 2, 7, 6, 241], reads = [Rd 5 None False, Rd 5 None False],
       writes = [], outgoing = [], StreamPaused = False\<rparr> =
     (FrameFull, [19, 2, 7, 5, 242],
      \<lparr>incoming = [19, 2, 7, 6, 241], reads = [Rd 5 None False],
       writes = [], outgoing = [], StreamPaused = False\<rparr>) \<and>
   read_frame [19, 2, 0, 0, 0] 0
      \<lparr>incoming = [7, 5, 242, 19, 2, 7, 6, 241], reads = [Rd 5 None False, Rd 5 None False],
       writes = [], outgoing = [], StreamPaused = False\<rparr> =
     (FrameFull, [7, 5, 242, 19, 2],
      \<lparr>incoming = [7, 6, 241], reads = [Rd 5 None False],
       writes = [], outgoing = [], StreamPaused = False\<rparr>) \<and>
   ReadStream [SENSOR_BUMP_WHEELS_DROPS] 2 (r_two_frames (script_error_in_frame False)) =
     \<lparr>final = \<lparr>incoming = [7, 6, 241], reads = [Rd 5 None False],
               writes = [], outgoing = [], StreamPaused = False\<rparr>,
      out_frames = [], out_closed = False, exit = ProcessExit HeaderNot19\<rparr>"
  by (simp add: eval_defs2)





lemma dataLength_loop_unknown:
  "unknown \<in> set packetIds \<Longrightarrow> SENSOR_PACKET_LENGTH unknown = None \<Longrightarrow>
   \<exists>packetId \<in> set packetIds. SENSOR_PACKET_LENGTH packetId = None \<and>
      dataLength_loop dataLength packetIds = Inl packetId"
proof (induction packetIds arbitrary: dataLength)
  case Nil
  then show ?case by simp
next
  case (Cons a packetIds)
  show ?case
  proof (cases "SENSOR_PACKET_LENGTH a")
    case None
    then show ?thesis by simp
  next
    case (Some l)
    with Cons.prems have "unknown \<in> set packetIds" by auto
    from Cons.IH [OF this Cons.prems(2), of "dataLength + l"] Some show ?thesis by auto
  qed
qed

lemma Write_accepted:
  "writes r = [] \<Longrightarrow> Write opcode p r = (None, r\<lparr>outgoing := outgoing r @ opcode # p\<rparr>)"
  by (simp add: Write_def S_Write_def)

text \<open>
  Claim C9: the channel is closed exactly when the reader ends on the pause path. With
  an unregistered id in the list, \<open>Stream\<close> still writes the request (op code, count,
  ids) and the reader returns at once, the channel open; a read that returns \<open>io.EOF\<close>
  makes the reader return, the channel open. The consumer of an open channel whose
  reader has returned waits for ever.
\<close>

theorem channel_closed_only_when_paused:
  "(out_closed (ReadStream packetIds receives r) \<longleftrightarrow> exit (ReadStream packetIds receives r) = Paused) \<and>
   (out_closed (ReadStream_loop packetIds buf out receives r)
      \<longleftrightarrow> exit (ReadStream_loop packetIds buf out receives r) = Paused) \<and>
   (unknown \<in> set packetIds \<and> SENSOR_PACKET_LENGTH unknown = None \<and> writes r = [] \<longrightarrow>
      (\<exists>packetId. packetId \<in> set packetIds \<and> SENSOR_PACKET_LENGTH packetId = None \<and>
         Stream packetIds receives r =
           Inr \<lparr>final = r\<lparr>outgoing := outgoing r @
                               SensorStream_op # of_nat (length packetIds) # packetIds\<rparr>,
                out_frames = [], out_closed = False,
                exit = ReturnedOnUnknownId packetId\<rparr>)) \<and>
   (\<not> StreamPaused r \<and> read_frame buf 0 r = (FrameEOF, buf', r') \<longrightarrow>
      ReadStream_loop packetIds buf out receives r =
        \<lparr>final = r', out_frames = out, out_closed = False, exit = ReturnedOnEOF\<rparr>)"
proof (intro conjI impI)
  show "out_closed (ReadStream packetIds receives r) \<longleftrightarrow> exit (ReadStream packetIds receives r) = Paused"
    by (cases "dataLength_loop 0 packetIds")
       (simp_all add: ReadStream_def ReadStream_loop_closed_iff)
  show "out_closed (ReadStream_loop packetIds buf out receives r)
      \<longleftrightarrow> exit (ReadStream_loop packetIds buf out receives r) = Paused"
    by (rule ReadStream_loop_closed_iff)
next
  assume h: "unknown \<in> set packetIds \<and> SENSOR_PACKET_LENGTH unknown = None \<and> writes r = []"
  then obtain packetId where p: "packetId \<in> set packetIds"
    "SENSOR_PACKET_LENGTH packetId = None" "dataLength_loop 0 packetIds = Inl packetId"
    using dataLength_loop_unknown [of unknown packetIds 0] by blast
  from h have w: "writes r = []" by simp
  have "Stream packetIds receives r =
           Inr \<lparr>final = r\<lparr>outgoing := outgoing r @
                               SensorStream_op # of_nat (length packetIds) # packetIds\<rparr>,
                out_frames = [], out_closed = False,
                exit = ReturnedOnUnknownId packetId\<rparr>"
    by (simp add: Stream_def Write_accepted [OF w] ReadStream_def p(3))
  with p show "\<exists>packetId. packetId \<in> set packetIds \<and> SENSOR_PACKET_LENGTH packetId = None \<and>
         Stream packetIds receives r =
           Inr \<lparr>final = r\<lparr>outgoing := outgoing r @
                               SensorStream_op # of_nat (length packetIds) # packetIds\<rparr>,
                out_frames = [], out_closed = False,
                exit = ReturnedOnUnknownId packetId\<rparr>"
    by blast
next
  assume "\<not> StreamPaused r \<and> read_frame buf 0 r = (FrameEOF, buf', r')"
  then show "ReadStream_loop packetIds buf out receives r =
        \<lparr>final = r', out_frames = out, out_closed = False, exit = ReturnedOnEOF\<rparr>"
    by (simp add: ReadStream_loop_eof)
qed

theorem channel_closed_only_when_paused_witness:
  "SENSOR_PACKET_LENGTH 99 = None \<and>
   Stream [SENSOR_BUMP_WHEELS_DROPS, 99] 1 r_fragments =
     Inr \<lparr>final = r_fragments\<lparr>outgoing := [148, 2, 7, 99]\<rparr>,
          out_frames = [], out_closed = False, exit = ReturnedOnUnknownId 99\<rparr> \<and>
   read_frame (replicate 5 0) 0 (r_two_frames script_closed_in_frame) =
     (FrameEOF, [19, 2, 0, 0, 0],
      \<lparr>incoming = [7, 5, 242, 19, 2, 7, 6, 241], reads = [],
       writes = [], outgoing = [], StreamPaused = False\<rparr>) \<and>
   ReadStream_loop [SENSOR_BUMP_WHEELS_DROPS] (replicate 5 0) [] 1 (r_two_frames script_closed_in_frame) =
     \<lparr>final = \<lparr>incoming = [7, 5, 242, 19, 2, 7, 6, 241], reads = [],
               writes = [], outgoing = [], StreamPaused = False\<rparr>,
      out_frames = [], out_closed = False, exit = ReturnedOnEOF\<rparr>"
proof -
  let ?r = "r_two_frames script_closed_in_frame"
  let ?r' = "\<lparr>incoming = [7, 5, 242, 19, 2, 7, 6, 241 :: byte], reads = [],
              writes = [], outgoing = [], StreamPaused = False\<rparr>"
  have u: "SENSOR_PACKET_LENGTH 99 = None"
    by (simp add: SENSOR_PACKET_LENGTH_def SENSOR_PACKET_LENGTH_entries_def)
  have w: "writes r_fragments = []" and o: "outgoing r_fragments = []"
    by (simp_all add: r_fragments_def)
  have np: "\<not> StreamPaused ?r" by (simp add: r_two_frames_def)
  have rf: "read_frame (replicate 5 0) 0 ?r = (FrameEOF, [19, 2, 0, 0, 0], ?r')"
    by (simp add: read_frame.simps S_Read_def r_two_frames_def script_closed_in_frame_def Let_def
          replicate_3)
  have first: "dataLength_loop 0 [SENSOR_BUMP_WHEELS_DROPS, 99] = Inl 99"
    by (simp add: SENSOR_PACKET_LENGTH_def SENSOR_PACKET_LENGTH_entries_def)
  from channel_closed_only_when_paused
         [where packetIds = "[SENSOR_BUMP_WHEELS_DROPS, 99]" and receives = 1
            and r = r_fragments and buf = "replicate 5 0" and out = "[]" and unknown = 99]
  have "\<exists>packetId. packetId \<in> set [SENSOR_BUMP_WHEELS_DROPS, 99 :: SensorCode] \<and>
          SENSOR_PACKET_LENGTH packetId = None \<and>
          Stream [SENSOR_BUMP_WHEELS_DROPS, 99] 1 r_fragments =
            Inr \<lparr>final = r_fragments\<lparr>outgoing := outgoing r_fragments @
                                SensorStream_op # of_nat (length [SENSOR_BUMP_WHEELS_DROPS, 99 :: SensorCode])
                                  # [SENSOR_BUMP_WHEELS_DROPS, 99]\<rparr>,
                 out_frames = [], out_closed = False, exit = ReturnedOnUnknownId packetId\<rparr>"
    using u w by simp
  then have s: "Stream [SENSOR_BUMP_WHEELS_DROPS, 99] 1 r_fragments =
     Inr \<lparr>final = r_fragments\<lparr>outgoing := [148, 2, 7, 99]\<rparr>,
          out_frames = [], out_closed = False, exit = ReturnedOnUnknownId 99\<rparr>"
    using o by (auto simp: SENSOR_PACKET_LENGTH_def SENSOR_PACKET_LENGTH_entries_def)
  from channel_closed_only_when_paused
         [where packetIds = "[SENSOR_BUMP_WHEELS_DROPS]" and receives = 1 and r = ?r
            and buf = "replicate 5 0" and out = "[]" and unknown = 0
            and buf' = "[19, 2, 0, 0, 0]" and r' = ?r'] np rf
  have "ReadStream_loop [SENSOR_BUMP_WHEELS_DROPS] (replicate 5 0) [] 1 ?r =
     \<lparr>final = ?r', out_frames = [], out_closed = False, exit = ReturnedOnEOF\<rparr>"
    by simp
  with u s rf show ?thesis by simp
qed

end
